theory Spec2Isabelle
  imports Main
begin

section \<open>Data model\<close>

text \<open>
  The repository holds several generations of one browser client. Two of them carry
  the room registry and are modelled in full: class \<open>RTC_Websocket\<close> of
  \<open>src/index.ts\<close> and class \<open>RTC_Websocket\<close> of \<open>src/src/Websocket.ts\<close>. The
  methods the two share are modelled once; where their bodies differ the model
  branches on the variant. Class \<open>Event\<close> of \<open>src/src/Websocket.ts\<close> is modelled
  on its own.
\<close>

datatype variant = Index_ts | Websocket_ts

datatype error = TypeError | SyntaxError | InvalidStateError | RangeError

text \<open>A JavaScript value as \<open>JSON.parse\<close> produces it and \<open>JSON.stringify\<close> takes it.\<close>

datatype json =
    JNull
  | JBool bool
  | JNum int
  | JStr string
  | JArr "json list"
  | JObj "(string \<times> json) list"

fun truthy :: "json \<Rightarrow> bool" where
  "truthy JNull = False"
| "truthy (JBool b) = b"
| "truthy (JNum n) = (n \<noteq> 0)"
| "truthy (JStr s) = (s \<noteq> [])"
| "truthy (JArr xs) = True"
| "truthy (JObj kvs) = True"

text \<open>An absent property reads as \<open>undefined\<close>, which is falsy.\<close>

fun truthy_opt :: "json option \<Rightarrow> bool" where
  "truthy_opt None = False"
| "truthy_opt (Some j) = truthy j"

fun truthy_str :: "string option \<Rightarrow> bool" where
  "truthy_str None = False"
| "truthy_str (Some s) = (s \<noteq> [])"

text \<open>
  Interface \<open>RTC_WSEvent\<close>. The interface declares \<open>sender\<close>, \<open>receiver\<close> and
  \<open>data\<close> as always present, but the value comes unchecked from \<open>JSON.parse\<close>, so a
  field that a frame may lack is an option here: \<open>None\<close> is the absent property.
\<close>

record ws_sender =
  sender_type :: string
  sender_id :: string
  sender_info :: "json option"

record ws_receiver =
  receiver_type :: "string option"
  receiver_id :: "string option"

record RTC_WSEvent =
  ev_event :: "string option"
  ev_time :: nat
  ev_data :: "json option"
  ev_sender :: "ws_sender option"
  ev_receiver :: "ws_receiver option"
  ev_meta :: "(string \<times> json) list option"

text \<open>
  The object that \<open>send\<close> serialises: \<open>{event, data, receiver, time}\<close> (the payload
  key is \<open>message\<close> in \<open>src/index.ts\<close> and \<open>data\<close> in \<open>src/src/Websocket.ts\<close>).
\<close>

record frame =
  f_event :: string
  f_data :: json
  f_receiver :: ws_receiver
  f_time :: nat

subsection \<open>The listener registry\<close>

text \<open>
  \<open>this.listeners = {'on': {}, 'once': {}}\<close>: two dictionaries from event name to
  the array of listeners registered under it.
\<close>

record 'l listeners =
  l_on :: "string \<rightharpoonup> 'l list"
  l_once :: "string \<rightharpoonup> 'l list"

definition new_listeners :: "'l listeners" where
  "new_listeners = \<lparr>l_on = Map.empty, l_once = Map.empty\<rparr>"

text \<open>
  Results of code that can throw: the exception, if any, and the state as the
  mutations made before the throw have left it.
\<close>

definition andThen ::
  "error option \<times> 's \<Rightarrow> ('s \<Rightarrow> error option \<times> 's) \<Rightarrow> error option \<times> 's" where
  "andThen r f = (case r of (None, s) \<Rightarrow> f s | (Some e, s) \<Rightarrow> (Some e, s))"

text \<open>
  \<open>Array.prototype.forEach\<close> with a callback that may throw: the first exception
  ends the loop. The array is read as it stood when the loop began; the source only
  ever appends to a listener array, and \<open>forEach\<close> does not visit elements appended
  during the loop.
\<close>

fun forEach :: "('l \<Rightarrow> 's \<Rightarrow> error option \<times> 's) \<Rightarrow> 'l list \<Rightarrow> 's \<Rightarrow> error option \<times> 's" where
  "forEach f [] s = (None, s)"
| "forEach f (l # ls) s =
     (case f l s of (None, s') \<Rightarrow> forEach f ls s' | (Some e, s') \<Rightarrow> (Some e, s'))"

subsection \<open>Class \<open>RTC_EventEmitter\<close> (both files)\<close>

definition RTC_EventEmitter_on :: "string \<Rightarrow> 'l \<Rightarrow> 'l listeners \<Rightarrow> 'l listeners" where
  "RTC_EventEmitter_on name listener L =
     L\<lparr>l_on := (l_on L)(name \<mapsto> (case l_on L name of None \<Rightarrow> [] | Some ls \<Rightarrow> ls) @ [listener])\<rparr>"

definition RTC_EventEmitter_once :: "string \<Rightarrow> 'l \<Rightarrow> 'l listeners \<Rightarrow> 'l listeners" where
  "RTC_EventEmitter_once name listener L =
     L\<lparr>l_once := (l_once L)(name \<mapsto> (case l_once L name of None \<Rightarrow> [] | Some ls \<Rightarrow> ls) @ [listener])\<rparr>"

text \<open>
  \<open>dispatch(name, data)\<close>. The registry lives inside a larger state \<open>'s\<close> that the
  listeners may change (\<open>getL\<close> reads it, \<open>setL\<close> writes it); \<open>call spread l\<close> runs
  listener \<open>l\<close>, with \<open>spread = True\<close> for \<open>listener(...data)\<close> and \<open>False\<close> for
  \<open>listener(data)\<close>. The one-shot dictionary is read after the persistent listeners
  have run, and the entry is deleted only when no listener threw.
\<close>

definition RTC_EventEmitter_dispatch ::
  "('s \<Rightarrow> 'l listeners) \<Rightarrow> ('l listeners \<Rightarrow> 's \<Rightarrow> 's) \<Rightarrow>
   (bool \<Rightarrow> 'l \<Rightarrow> 's \<Rightarrow> error option \<times> 's) \<Rightarrow> string \<Rightarrow> 's \<Rightarrow> error option \<times> 's" where
  "RTC_EventEmitter_dispatch getL setL call name s =
     andThen
       (case l_on (getL s) name of
          None \<Rightarrow> (None, s)
        | Some ls \<Rightarrow> forEach (call True) ls s)
       (\<lambda>s1. case l_once (getL s1) name of
          None \<Rightarrow> (None, s1)
        | Some ls \<Rightarrow>
            andThen (forEach (call False) ls s1)
              (\<lambda>s2. (None, setL ((getL s2)\<lparr>l_once := (l_once (getL s2))(name := None)\<rparr>) s2)))"

subsection \<open>Class \<open>Event\<close> (\<open>src/src/Websocket.ts\<close>, lines 321 to 364)\<close>

text \<open>
  \<open>Event.on\<close> and \<open>Event.dispatch\<close> read as those of \<open>RTC_EventEmitter\<close>.
  \<open>Event.once\<close> creates the array under \<open>listeners['once'][name]\<close> when it is
  missing, and then pushes onto \<open>listeners['on'][name]\<close>; the push throws a
  \<open>TypeError\<close> when no persistent array exists under that name.
\<close>

definition Event_on :: "string \<Rightarrow> 'l \<Rightarrow> 'l listeners \<Rightarrow> 'l listeners" where
  "Event_on name listener L =
     L\<lparr>l_on := (l_on L)(name \<mapsto> (case l_on L name of None \<Rightarrow> [] | Some ls \<Rightarrow> ls) @ [listener])\<rparr>"

definition Event_once :: "string \<Rightarrow> 'l \<Rightarrow> 'l listeners \<Rightarrow> error option \<times> 'l listeners" where
  "Event_once name listener L =
     (let L1 = (case l_once L name of
                  None \<Rightarrow> L\<lparr>l_once := (l_once L)(name \<mapsto> [])\<rparr>
                | Some ls \<Rightarrow> L)
      in case l_on L1 name of
           None \<Rightarrow> (Some TypeError, L1)
         | Some ls \<Rightarrow> (None, L1\<lparr>l_on := (l_on L1)(name \<mapsto> ls @ [listener])\<rparr>))"

text \<open>
  A bus on its own, with opaque listeners: the state is the registry and the list of
  listeners invoked so far, in order.
\<close>

definition Event_dispatch ::
  "string \<Rightarrow> 'l listeners \<times> 'l list \<Rightarrow> error option \<times> ('l listeners \<times> 'l list)" where
  "Event_dispatch name s =
     RTC_EventEmitter_dispatch fst (\<lambda>L s. (L, snd s))
       (\<lambda>spread l s. (None, (fst s, snd s @ [l]))) name s"

section \<open>The connection\<close>

subsection \<open>The transport\<close>

text \<open>
  Modelled from the spec: the browser's \<open>WebSocket\<close> is an external collaborator,
  "an opaque primitive offering open/message/close/error notifications and a
  \<open>send\<close> operation that fails if not connected", with "a readable \<open>readyState\<close>".
  The model keeps the ready state and the frames written so far. "Not connected"
  is read as the host does: \<open>send\<close> throws \<open>InvalidStateError\<close> while the transport is
  still \<open>CONNECTING\<close>, writes the frame when it is \<open>OPEN\<close>, and returns without
  writing and without an exception once the closing handshake has started
  (\<open>CLOSING\<close>, \<open>CLOSED\<close>). \<open>close()\<close> starts the closing handshake; the \<open>close\<close>
  notification arrives later, as an input.
\<close>

datatype ready_state = CONNECTING | OPEN | CLOSING | CLOSED

record WebSocket =
  readyState :: ready_state
  sent :: "frame list"

definition WebSocket_send :: "frame \<Rightarrow> WebSocket \<Rightarrow> error + WebSocket" where
  "WebSocket_send f w =
     (if readyState w = CONNECTING then Inl InvalidStateError
      else if readyState w = OPEN then Inr (w\<lparr>sent := sent w @ [f]\<rparr>)
      else Inr w)"

definition WebSocket_close :: "WebSocket \<Rightarrow> WebSocket" where
  "WebSocket_close w =
     (if readyState w = CONNECTING \<or> readyState w = OPEN then w\<lparr>readyState := CLOSING\<rparr> else w)"

subsection \<open>The host's scheduler, promises and listeners\<close>

text \<open>
  What the code hands to \<open>setTimeout\<close>, \<open>setInterval\<close> and \<open>setImmediate\<close>: each
  closure of the source is one constructor. Delays are not modelled; the
  environment decides when a scheduled task fires.
\<close>

datatype task =
    ReconnectTimeout
  | PingPongInterval
  | ClosePollInterval
  | ImmediateWsClose
  | ImmediateDisconnect

datatype pstate = Pending | Fulfilled | Rejected error

text \<open>
  The closures that the source registers on the connection's emitter. \<open>App k\<close> is a
  callback of the application, opaque to the model: invoking it is recorded, it
  returns normally and does not call back into the connection.
\<close>

datatype listener =
    App nat
  | Router
  | JoinListener string
  | AttachInfo json
  | QueuedSend nat frame

text \<open>What an observer outside the connection can see happen, in order.\<close>

datatype effect =
    Invoked string nat "RTC_WSEvent option"
  | RoomInvoked nat string nat RTC_WSEvent
  | Settled nat "error option"

record RTC_Room =
  room_name :: string
  room_eventEmitter :: "nat listeners"

record RTC_Websocket =
  websocket :: "WebSocket option"
  reconnectionInterval :: nat
  connectionState :: string
  willReconnect :: bool
  canReconnect :: bool
  eventEmitter :: "listener listeners"
  defaultAuthToken :: "string option"
  reconnectionTimeout :: "nat option"
  rooms :: "RTC_Room list"
  isClientPingEnabled :: bool
  pingPongInterval :: nat
  pingPongIntervalTimer :: "nat option"
  timers :: "(nat \<times> task) list"
  next_timer :: nat
  promises :: "pstate list"
  reactions :: "(nat \<times> nat) list"
  trace :: "effect list"
  clock :: nat

text \<open>
  \<open>timers\<close> is the host's table of live timers, intervals and immediates, keyed by
  the handle that \<open>setTimeout\<close> returned; \<open>promises\<close> holds the state of every
  promise \<open>send\<close> has returned, addressed by position; \<open>reactions\<close> holds the
  \<open>then\<close> callbacks of \<open>leaveRoom\<close> that have not run, each with the index it
  captured; \<open>clock\<close> is what \<open>new Date().getTime()\<close> returns.
\<close>

definition schedule :: "task \<Rightarrow> RTC_Websocket \<Rightarrow> nat \<times> RTC_Websocket" where
  "schedule t c =
     (next_timer c, c\<lparr>timers := timers c @ [(next_timer c, t)], next_timer := Suc (next_timer c)\<rparr>)"

definition clearTimer :: "nat option \<Rightarrow> RTC_Websocket \<Rightarrow> RTC_Websocket" where
  "clearTimer h c = c\<lparr>timers := filter (\<lambda>(k, t). Some k \<noteq> h) (timers c)\<rparr>"

definition isOpened :: "RTC_Websocket \<Rightarrow> bool" where
  "isOpened c = (''open'' = connectionState c)"

definition getState :: "RTC_Websocket \<Rightarrow> string" where
  "getState c = connectionState c"

text \<open>\<open>resolve\<close> and \<open>reject\<close>: a promise settles once; later calls are ignored.\<close>

definition settle :: "nat \<Rightarrow> error option \<Rightarrow> RTC_Websocket \<Rightarrow> RTC_Websocket" where
  "settle p r c =
     (if p < length (promises c) \<and> promises c ! p = Pending
      then c\<lparr>promises := (promises c)[p := (case r of None \<Rightarrow> Fulfilled | Some e \<Rightarrow> Rejected e)],
             trace := trace c @ [Settled p r]\<rparr>
      else c)"

text \<open>
  The block \<open>try { this.websocket.send(event); resolve(this) } catch (error) { reject(error) }\<close>
  that both branches of \<open>send\<close> share.
\<close>

definition try_send :: "nat \<Rightarrow> frame \<Rightarrow> RTC_Websocket \<Rightarrow> RTC_Websocket" where
  "try_send p f c =
     (case websocket c of
        None \<Rightarrow> settle p (Some TypeError) c
      | Some w \<Rightarrow>
          (case WebSocket_send f w of
             Inl e \<Rightarrow> settle p (Some e) c
           | Inr w' \<Rightarrow> settle p None (c\<lparr>websocket := Some w'\<rparr>)))"

text \<open>\<open>send(event, data, receiver)\<close>: returns the new promise.\<close>

definition send :: "string \<Rightarrow> json \<Rightarrow> ws_receiver \<Rightarrow> RTC_Websocket \<Rightarrow> nat \<times> RTC_Websocket" where
  "send event data receiver c =
     (let f = \<lparr>f_event = event, f_data = data, f_receiver = receiver, f_time = clock c\<rparr>;
          p = length (promises c);
          c1 = c\<lparr>promises := promises c @ [Pending]\<rparr>
      in if isOpened c1 then (p, try_send p f c1)
         else (p, c1\<lparr>eventEmitter := RTC_EventEmitter_once ''open'' (QueuedSend p f) (eventEmitter c1)\<rparr>))"

definition system_receiver :: ws_receiver where
  "system_receiver = \<lparr>receiver_type = Some ''system'', receiver_id = Some ''system''\<rparr>"

definition no_receiver :: ws_receiver where
  "no_receiver = \<lparr>receiver_type = None, receiver_id = None\<rparr>"

definition room_receiver :: "string \<Rightarrow> ws_receiver" where
  "room_receiver name = \<lparr>receiver_type = Some ''room'', receiver_id = Some name\<rparr>"

definition sendToSystem :: "string \<Rightarrow> json \<Rightarrow> RTC_Websocket \<Rightarrow> nat \<times> RTC_Websocket" where
  "sendToSystem event data c = send event data system_receiver c"

definition attachInfo :: "json \<Rightarrow> RTC_Websocket \<Rightarrow> RTC_Websocket" where
  "attachInfo info c =
     snd (send ''attach_info'' info \<lparr>receiver_type = Some ''server'', receiver_id = Some ''server''\<rparr> c)"

subsection \<open>Subscriptions\<close>

definition onOpen :: "listener \<Rightarrow> RTC_Websocket \<Rightarrow> RTC_Websocket" where
  "onOpen l c = c\<lparr>eventEmitter := RTC_EventEmitter_on ''open'' l (eventEmitter c)\<rparr>"

definition onMessage :: "listener \<Rightarrow> RTC_Websocket \<Rightarrow> RTC_Websocket" where
  "onMessage l c = c\<lparr>eventEmitter := RTC_EventEmitter_on ''message'' l (eventEmitter c)\<rparr>"

definition onEvent :: "string \<Rightarrow> listener \<Rightarrow> RTC_Websocket \<Rightarrow> RTC_Websocket" where
  "onEvent event l c = c\<lparr>eventEmitter := RTC_EventEmitter_on (''event.'' @ event) l (eventEmitter c)\<rparr>"

definition onAnyEvent :: "listener \<Rightarrow> RTC_Websocket \<Rightarrow> RTC_Websocket" where
  "onAnyEvent l c = c\<lparr>eventEmitter := RTC_EventEmitter_on ''event'' l (eventEmitter c)\<rparr>"

definition onClose :: "listener \<Rightarrow> RTC_Websocket \<Rightarrow> RTC_Websocket" where
  "onClose l c = c\<lparr>eventEmitter := RTC_EventEmitter_on ''close'' l (eventEmitter c)\<rparr>"

definition onDisconnect :: "listener \<Rightarrow> RTC_Websocket \<Rightarrow> RTC_Websocket" where
  "onDisconnect l c = c\<lparr>eventEmitter := RTC_EventEmitter_on ''custom.disconnect'' l (eventEmitter c)\<rparr>"

definition onError :: "listener \<Rightarrow> RTC_Websocket \<Rightarrow> RTC_Websocket" where
  "onError l c = c\<lparr>eventEmitter := RTC_EventEmitter_on ''error'' l (eventEmitter c)\<rparr>"

definition onConnecting :: "listener \<Rightarrow> RTC_Websocket \<Rightarrow> RTC_Websocket" where
  "onConnecting l c = c\<lparr>eventEmitter := RTC_EventEmitter_on ''connecting'' l (eventEmitter c)\<rparr>"

definition onReconnecting :: "listener \<Rightarrow> RTC_Websocket \<Rightarrow> RTC_Websocket" where
  "onReconnecting l c = c\<lparr>eventEmitter := RTC_EventEmitter_on ''reconnecting'' l (eventEmitter c)\<rparr>"

definition onReconnect :: "listener \<Rightarrow> RTC_Websocket \<Rightarrow> RTC_Websocket" where
  "onReconnect l c = c\<lparr>eventEmitter := RTC_EventEmitter_on ''reconnect'' l (eventEmitter c)\<rparr>"

subsection \<open>Class \<open>RTC_Room\<close>\<close>

text \<open>
  The constructor's closure \<open>joinRoom\<close>: the event is \<open>join\<close> in \<open>src/index.ts\<close> and
  \<open>room_join\<close> in \<open>src/src/Websocket.ts\<close>. The promise is dropped.
\<close>

definition RTC_Room_joinRoom :: "variant \<Rightarrow> string \<Rightarrow> RTC_Websocket \<Rightarrow> RTC_Websocket" where
  "RTC_Room_joinRoom v name c =
     snd (send (case v of Index_ts \<Rightarrow> ''join'' | Websocket_ts \<Rightarrow> ''room_join'')
            (JStr name) (room_receiver name) c)"

definition RTC_Room_new :: "variant \<Rightarrow> string \<Rightarrow> RTC_Websocket \<Rightarrow> RTC_Room \<times> RTC_Websocket" where
  "RTC_Room_new v name c =
     (\<lparr>room_name = name, room_eventEmitter = new_listeners\<rparr>,
      if isOpened c then RTC_Room_joinRoom v name c else onOpen (JoinListener name) c)"

definition RTC_Room_send ::
  "RTC_Room \<Rightarrow> string \<Rightarrow> json \<Rightarrow> RTC_Websocket \<Rightarrow> nat \<times> RTC_Websocket" where
  "RTC_Room_send room event data c = send event data (room_receiver (room_name room)) c"

text \<open>
  \<open>leave()\<close>: \<open>send('leave', null, ...)\<close> in \<open>src/index.ts\<close>;
  \<open>send('room_leave', {reason}, ...)\<close> with the default reason \<open>conn_close\<close> in
  \<open>src/src/Websocket.ts\<close>.
\<close>

definition RTC_Room_leave :: "variant \<Rightarrow> RTC_Room \<Rightarrow> RTC_Websocket \<Rightarrow> nat \<times> RTC_Websocket" where
  "RTC_Room_leave v room c =
     (case v of
        Index_ts \<Rightarrow> send ''leave'' JNull (room_receiver (room_name room)) c
      | Websocket_ts \<Rightarrow>
          send ''room_leave'' (JObj [(''reason'', JStr ''conn_close'')])
            (room_receiver (room_name room)) c)"

text \<open>
  \<open>emitEvent(name, event)\<close> on the room at position \<open>i\<close> of the registry: a dispatch
  on the room's own emitter, whose listeners are all callbacks of the application.
\<close>

definition RTC_Room_emitEvent ::
  "nat \<Rightarrow> string \<Rightarrow> RTC_WSEvent \<Rightarrow> RTC_Websocket \<Rightarrow> RTC_Websocket" where
  "RTC_Room_emitEvent i name ev c =
     snd (RTC_EventEmitter_dispatch
            (\<lambda>c. room_eventEmitter (rooms c ! i))
            (\<lambda>L c. c\<lparr>rooms := (rooms c)[i := (rooms c ! i)\<lparr>room_eventEmitter := L\<rparr>]\<rparr>)
            (\<lambda>spread k c. (None, c\<lparr>trace := trace c @ [RoomInvoked i name k ev]\<rparr>))
            name c)"

text \<open>
  The search of the loops \<open>for (i = 0; i < this.rooms.length; i++) if (room.name === x) { ...; break }\<close>:
  the position of the first room whose name is \<open>x\<close>.
\<close>

fun find_room :: "string option \<Rightarrow> RTC_Room list \<Rightarrow> nat option" where
  "find_room x [] = None"
| "find_room x (r # rs) =
     (if Some (room_name r) = x then Some 0 else map_option Suc (find_room x rs))"

definition getRoom :: "string \<Rightarrow> RTC_Websocket \<Rightarrow> RTC_Room option" where
  "getRoom name c = map_option (\<lambda>i. rooms c ! i) (find_room (Some name) (rooms c))"

definition joinRoom :: "variant \<Rightarrow> string \<Rightarrow> RTC_Websocket \<Rightarrow> RTC_Websocket" where
  "joinRoom v name c =
     (case RTC_Room_new v name c of (room, c1) \<Rightarrow> c1\<lparr>rooms := rooms c1 @ [room]\<rparr>)"

text \<open>
  \<open>leaveRoom(name)\<close>: \<open>room.leave().then(() => this.rooms.splice(i, 1))\<close> for the
  first match. \<open>then\<close> is given a fulfilment callback only.
\<close>

definition leaveRoom :: "variant \<Rightarrow> string \<Rightarrow> RTC_Websocket \<Rightarrow> RTC_Websocket" where
  "leaveRoom v name c =
     (case find_room (Some name) (rooms c) of
        None \<Rightarrow> c
      | Some i \<Rightarrow>
          (case RTC_Room_leave v (rooms c ! i) c of
             (p, c1) \<Rightarrow> c1\<lparr>reactions := reactions c1 @ [(p, i)]\<rparr>))"

text \<open>\<open>xs.splice(i, 1)\<close>: nothing is removed when \<open>i\<close> is past the end.\<close>

definition splice :: "nat \<Rightarrow> 'a list \<Rightarrow> 'a list" where
  "splice i xs = take i xs @ drop (Suc i) xs"

text \<open>
  The host runs the \<open>then\<close> callback at position \<open>k\<close> of the pending ones once its
  promise is fulfilled; a rejection passes the callback by.
\<close>

definition react :: "nat \<Rightarrow> RTC_Websocket \<Rightarrow> RTC_Websocket" where
  "react k c =
     (if k < length (reactions c) then
        (case reactions c ! k of
           (p, i) \<Rightarrow>
             (if p < length (promises c) then
                (case promises c ! p of
                   Pending \<Rightarrow> c
                 | Fulfilled \<Rightarrow> c\<lparr>rooms := splice i (rooms c), reactions := splice k (reactions c)\<rparr>
                 | Rejected e \<Rightarrow> c\<lparr>reactions := splice k (reactions c)\<rparr>)
              else c))
      else c)"

subsection \<open>Dispatch on the connection's emitter\<close>

text \<open>
  Running one listener of the connection's emitter under event \<open>name\<close>, with the
  envelope \<open>arg\<close> the dispatch carries (\<open>None\<close> for the lifecycle events, whose
  argument is the host's native event). This first level runs every listener but
  the message router. The router dispatches on the same emitter itself, so a router
  found again below its own dispatches would call itself without end, which the
  host ends with a \<open>RangeError\<close>; the constructor is the only place that registers
  it, under \<open>message\<close>.
\<close>

definition invoke0 ::
  "variant \<Rightarrow> string \<Rightarrow> RTC_WSEvent option \<Rightarrow> bool \<Rightarrow> listener \<Rightarrow> RTC_Websocket \<Rightarrow>
   error option \<times> RTC_Websocket" where
  "invoke0 v name arg spread l c =
     (case l of
        App k \<Rightarrow> (None, c\<lparr>trace := trace c @ [Invoked name k arg]\<rparr>)
      | Router \<Rightarrow> (Some RangeError, c)
      | JoinListener room \<Rightarrow> (None, RTC_Room_joinRoom v room c)
      | AttachInfo info \<Rightarrow> (None, attachInfo info c)
      | QueuedSend p f \<Rightarrow> (None, try_send p f c))"

definition dispatch0 ::
  "variant \<Rightarrow> string \<Rightarrow> RTC_WSEvent option \<Rightarrow> RTC_Websocket \<Rightarrow> error option \<times> RTC_Websocket" where
  "dispatch0 v name arg c =
     RTC_EventEmitter_dispatch eventEmitter (\<lambda>L c. c\<lparr>eventEmitter := L\<rparr>)
       (invoke0 v name arg) name c"

definition stopPingPong :: "RTC_Websocket \<Rightarrow> RTC_Websocket" where
  "stopPingPong c = clearTimer (pingPongIntervalTimer c) c"

definition stopReconnectionTimeout :: "RTC_Websocket \<Rightarrow> RTC_Websocket" where
  "stopReconnectionTimeout c = clearTimer (reconnectionTimeout c) c"

text \<open>
  The listener that the constructor registers with \<open>this.onMessage\<close>. The handling
  of \<open>conn.rejected\<close> exists in \<open>src/src/Websocket.ts\<close> only; its log line reads
  \<open>event.data.reason\<close>, which throws when the envelope has no \<open>data\<close>.
\<close>

definition router :: "variant \<Rightarrow> RTC_WSEvent \<Rightarrow> RTC_Websocket \<Rightarrow> error option \<times> RTC_Websocket" where
  "router v ev c =
     (case ev_event ev of
        None \<Rightarrow> (None, c)
      | Some name \<Rightarrow>
          if name = [] then (None, c)
          else
            andThen (dispatch0 v ''event'' (Some ev) c) (\<lambda>c1.
            andThen (dispatch0 v (''event.'' @ name) (Some ev) c1) (\<lambda>c2.
              if v = Websocket_ts \<and> name = ''conn.rejected'' then
                (let c3 = stopPingPong c2;
                     c4 = stopReconnectionTimeout c3;
                     c5 = c4\<lparr>canReconnect := False\<rparr>
                 in if ev_data ev = None \<or> ev_data ev = Some JNull
                    then (Some TypeError, c5) else (None, c5))
              else
                (case ev_receiver ev of
                   None \<Rightarrow> (Some TypeError, c2)
                 | Some r \<Rightarrow>
                     if receiver_type r = Some ''room'' then
                       (case find_room (receiver_id r) (rooms c2) of
                          None \<Rightarrow> (None, c2)
                        | Some i \<Rightarrow>
                            (None, RTC_Room_emitEvent i name ev
                                     (RTC_Room_emitEvent i ''all_events'' ev c2)))
                     else (None, c2)))))"

text \<open>
  The second level runs the router too. Called as \<open>listener(...data)\<close> it receives
  the envelope, or nothing at all when the dispatch carries none; called as
  \<open>listener(data)\<close> it receives the array, whose \<open>event\<close> property is undefined.
\<close>

definition invoke ::
  "variant \<Rightarrow> string \<Rightarrow> RTC_WSEvent option \<Rightarrow> bool \<Rightarrow> listener \<Rightarrow> RTC_Websocket \<Rightarrow>
   error option \<times> RTC_Websocket" where
  "invoke v name arg spread l c =
     (case l of
        Router \<Rightarrow>
          (if spread then
             (case arg of None \<Rightarrow> (Some TypeError, c) | Some ev \<Rightarrow> router v ev c)
           else (None, c))
      | _ \<Rightarrow> invoke0 v name arg spread l c)"

definition dispatch ::
  "variant \<Rightarrow> string \<Rightarrow> RTC_WSEvent option \<Rightarrow> RTC_Websocket \<Rightarrow> error option \<times> RTC_Websocket" where
  "dispatch v name arg c =
     RTC_EventEmitter_dispatch eventEmitter (\<lambda>L c. c\<lparr>eventEmitter := L\<rparr>)
       (invoke v name arg) name c"

subsection \<open>Lifecycle\<close>

text \<open>
  \<open>closeConnection(reconnect)\<close>. \<open>src/index.ts\<close> closes the transport at once, which
  throws when none has been created; \<open>src/src/Websocket.ts\<close> first sends
  \<open>conn_close\<close> if the state is still \<open>open\<close> and defers the close with
  \<open>setImmediate\<close>.
\<close>

definition closeConnection ::
  "variant \<Rightarrow> bool \<Rightarrow> RTC_Websocket \<Rightarrow> error option \<times> RTC_Websocket" where
  "closeConnection v reconnect c =
     (let c1 = (if reconnect
                then c\<lparr>willReconnect := True, connectionState := ''internal_reconnection''\<rparr>
                else c)
      in case v of
           Index_ts \<Rightarrow>
             (case websocket c1 of
                None \<Rightarrow> (Some TypeError, c1)
              | Some w \<Rightarrow> (None, c1\<lparr>websocket := Some (WebSocket_close w)\<rparr>))
         | Websocket_ts \<Rightarrow>
             (let c2 = (if isOpened c1
                        then snd (sendToSystem ''conn_close'' (JObj [(''reason'', JStr ''general'')]) c1)
                        else c1)
              in (None, snd (schedule ImmediateWsClose c2))))"

text \<open>The body that both files share: \<open>closeConnection(true)\<close>, then the guarded \<open>setTimeout\<close>.\<close>

definition reconnect_body :: "variant \<Rightarrow> RTC_Websocket \<Rightarrow> error option \<times> RTC_Websocket" where
  "reconnect_body v c =
     andThen (closeConnection v True c) (\<lambda>c1.
       if reconnectionInterval c1 \<noteq> 0 then
         (case schedule ReconnectTimeout c1 of
            (h, c2) \<Rightarrow> (None, c2\<lparr>reconnectionTimeout := Some h\<rparr>))
       else (None, c1))"

definition reconnect :: "variant \<Rightarrow> RTC_Websocket \<Rightarrow> error option \<times> RTC_Websocket" where
  "reconnect v c =
     (case v of
        Index_ts \<Rightarrow> reconnect_body v c
      | Websocket_ts \<Rightarrow> if canReconnect c then reconnect_body v c else (None, c))"

definition changeState ::
  "variant \<Rightarrow> string \<Rightarrow> RTC_Websocket \<Rightarrow> error option \<times> RTC_Websocket" where
  "changeState v stateName c =
     (let c1 = c\<lparr>connectionState := stateName\<rparr>
      in andThen
           (if ''close'' = stateName \<and> willReconnect c1 then reconnect v c1 else (None, c1))
           (dispatch v stateName None))"

definition closeNativeWebsocketConnection :: "RTC_Websocket \<Rightarrow> RTC_Websocket" where
  "closeNativeWebsocketConnection c =
     (case websocket c of
        None \<Rightarrow> c
      | Some w \<Rightarrow>
          (let w1 = (if readyState w = OPEN then WebSocket_close w else w);
               c1 = c\<lparr>websocket := Some w1\<rparr>
           in if readyState w1 = CONNECTING then snd (schedule ClosePollInterval c1) else c1))"

text \<open>
  \<open>createSocket(isReconnecting)\<close>. The resolution of the address is left out; the
  four \<open>addEventListener\<close> closures are the four handlers below.
\<close>

definition createSocket ::
  "variant \<Rightarrow> bool \<Rightarrow> RTC_Websocket \<Rightarrow> error option \<times> RTC_Websocket" where
  "createSocket v isReconnecting c =
     andThen
       (if isReconnecting
        then dispatch v ''reconnecting'' None (c\<lparr>connectionState := ''reconnecting''\<rparr>)
        else dispatch v ''connecting'' None (c\<lparr>connectionState := ''connecting''\<rparr>))
       (\<lambda>c1. (None, (closeNativeWebsocketConnection c1)
                       \<lparr>websocket := Some \<lparr>readyState = CONNECTING, sent = []\<rparr>\<rparr>))"

definition connect :: "variant \<Rightarrow> RTC_Websocket \<Rightarrow> error option \<times> RTC_Websocket" where
  "connect v c = createSocket v False c"

text \<open>
  \<open>close()\<close>. In \<open>src/src/Websocket.ts\<close> the rooms are left first and the rest is
  deferred with \<open>setImmediate\<close>.
\<close>

definition close :: "variant \<Rightarrow> RTC_Websocket \<Rightarrow> error option \<times> RTC_Websocket" where
  "close v c =
     (let c1 = c\<lparr>willReconnect := False\<rparr>
      in case v of
           Index_ts \<Rightarrow>
             andThen (closeConnection v False c1) (\<lambda>c2.
               dispatch v ''custom.disconnect'' None
                 (stopPingPong (stopReconnectionTimeout c2)))
         | Websocket_ts \<Rightarrow>
             (let c2 = stopReconnectionTimeout (stopPingPong c1);
                  c3 = fold (\<lambda>room c. snd (RTC_Room_leave v room c)) (rooms c2) c2
              in (None, snd (schedule ImmediateDisconnect c3))))"

definition ping_payload :: json where
  "ping_payload = JObj [(''message'', JStr ''ping'')]"

definition pong_payload :: json where
  "pong_payload = JObj [(''message'', JStr ''pong'')]"

text \<open>The body of the keepalive interval.\<close>

definition ping :: "variant \<Rightarrow> RTC_Websocket \<Rightarrow> RTC_Websocket" where
  "ping v c =
     (case v of
        Index_ts \<Rightarrow> snd (send ''ping'' ping_payload no_receiver c)
      | Websocket_ts \<Rightarrow> snd (sendToSystem ''ping'' ping_payload c))"

definition startPingPong :: "RTC_Websocket \<Rightarrow> RTC_Websocket" where
  "startPingPong c =
     (case schedule PingPongInterval c of (h, c1) \<Rightarrow> c1\<lparr>pingPongIntervalTimer := Some h\<rparr>)"

subsection \<open>The transport's notifications\<close>

definition on_open :: "variant \<Rightarrow> RTC_Websocket \<Rightarrow> error option \<times> RTC_Websocket" where
  "on_open v c =
     (let c1 = (if truthy_str (defaultAuthToken c)
                then snd (send ''auth.token'' (JStr (the (defaultAuthToken c))) no_receiver c)
                else c)
      in andThen
           (if ''reconnecting'' = connectionState c1
            then dispatch v ''reconnect'' None c1 else (None, c1))
           (\<lambda>c2. changeState v ''open''
                    (case v of
                       Index_ts \<Rightarrow> startPingPong c2
                     | Websocket_ts \<Rightarrow> if isClientPingEnabled c2 then startPingPong c2 else c2)))"

text \<open>
  The two double decodings of the message handler. \<open>parse j\<close> is \<open>JSON.parse(j)\<close> for
  a JavaScript value \<open>j\<close>: \<open>None\<close> when it throws a \<open>SyntaxError\<close>.
\<close>

definition decode_info :: "(json \<Rightarrow> json option) \<Rightarrow> ws_sender \<Rightarrow> error + ws_sender" where
  "decode_info parse s =
     (case sender_info s of
        None \<Rightarrow> Inr s
      | Some j \<Rightarrow>
          if truthy j then
            (case parse j of
               None \<Rightarrow> Inl SyntaxError
             | Some j' \<Rightarrow> Inr (s\<lparr>sender_info := Some j'\<rparr>))
          else Inr s)"

definition decode_meta ::
  "(json \<Rightarrow> json option) \<Rightarrow> (string \<times> json) list option \<Rightarrow> error + (string \<times> json) list option" where
  "decode_meta parse meta =
     (case meta of
        None \<Rightarrow> Inr None
      | Some m \<Rightarrow>
          (case map_of m ''user_info'' of
             None \<Rightarrow> Inr (Some m)
           | Some j \<Rightarrow>
               if truthy j then
                 (case parse j of
                    None \<Rightarrow> Inl SyntaxError
                  | Some j' \<Rightarrow>
                      Inr (Some (map (\<lambda>(k, x). if k = ''user_info'' then (k, j') else (k, x)) m)))
               else Inr (Some m)))"

text \<open>
  The \<open>message\<close> handler. Its input is the frame as \<open>JSON.parse(e.data)\<close> decodes it,
  \<open>None\<close> when that throws. The reply to \<open>ping\<close> exists in \<open>src/src/Websocket.ts\<close>
  only.
\<close>

definition on_message ::
  "variant \<Rightarrow> (json \<Rightarrow> json option) \<Rightarrow> RTC_WSEvent option \<Rightarrow> RTC_Websocket \<Rightarrow>
   error option \<times> RTC_Websocket" where
  "on_message v parse m c =
     (case m of
        None \<Rightarrow> (Some SyntaxError, c)
      | Some ev \<Rightarrow>
          if ev_event ev = Some ''pong'' then (None, c)
          else if v = Websocket_ts \<and> ev_event ev = Some ''ping''
          then (None, snd (sendToSystem ''pong'' pong_payload c))
          else
            (case ev_sender ev of
               None \<Rightarrow> (Some TypeError, c)
             | Some s \<Rightarrow>
                 (case decode_info parse s of
                    Inl e \<Rightarrow> (Some e, c)
                  | Inr s' \<Rightarrow>
                      (case decode_meta parse (ev_meta ev) of
                         Inl e \<Rightarrow> (Some e, c)
                       | Inr meta' \<Rightarrow>
                           dispatch v ''message''
                             (Some (ev\<lparr>ev_sender := Some s', ev_meta := meta'\<rparr>)) c))))"

definition on_close :: "variant \<Rightarrow> RTC_Websocket \<Rightarrow> error option \<times> RTC_Websocket" where
  "on_close v c = changeState v ''close'' (stopPingPong c)"

definition on_error :: "variant \<Rightarrow> RTC_Websocket \<Rightarrow> error option \<times> RTC_Websocket" where
  "on_error v c = changeState v ''error'' c"

text \<open>The transport changes its own ready state before it notifies.\<close>

definition set_readyState :: "ready_state \<Rightarrow> RTC_Websocket \<Rightarrow> RTC_Websocket" where
  "set_readyState r c = c\<lparr>websocket := map_option (\<lambda>w. w\<lparr>readyState := r\<rparr>) (websocket c)\<rparr>"

subsection \<open>Scheduled tasks\<close>

definition fire :: "variant \<Rightarrow> nat \<Rightarrow> RTC_Websocket \<Rightarrow> error option \<times> RTC_Websocket" where
  "fire v h c =
     (case map_of (timers c) h of
        None \<Rightarrow> (None, c)
      | Some ReconnectTimeout \<Rightarrow> createSocket v True (clearTimer (Some h) c)
      | Some PingPongInterval \<Rightarrow> (None, ping v c)
      | Some ClosePollInterval \<Rightarrow>
          (case websocket c of
             None \<Rightarrow> (Some TypeError, c)
           | Some w \<Rightarrow>
               if readyState w = OPEN
               then (None, clearTimer (Some h) (c\<lparr>websocket := Some (WebSocket_close w)\<rparr>))
               else (None, c))
      | Some ImmediateWsClose \<Rightarrow>
          (let c1 = clearTimer (Some h) c
           in case websocket c1 of
                None \<Rightarrow> (Some TypeError, c1)
              | Some w \<Rightarrow> (None, c1\<lparr>websocket := Some (WebSocket_close w)\<rparr>))
      | Some ImmediateDisconnect \<Rightarrow>
          andThen (closeConnection v False (clearTimer (Some h) c))
            (dispatch v ''custom.disconnect'' None))"

subsection \<open>Other methods and the constructor\<close>

definition setReconnectionInterval :: "nat \<Rightarrow> RTC_Websocket \<Rightarrow> RTC_Websocket" where
  "setReconnectionInterval interval c = c\<lparr>reconnectionInterval := interval\<rparr>"

definition setAuthToken :: "string \<Rightarrow> RTC_Websocket \<Rightarrow> RTC_Websocket" where
  "setAuthToken token c = c\<lparr>defaultAuthToken := Some token\<rparr>"

definition setPingPongInterval :: "variant \<Rightarrow> nat \<Rightarrow> RTC_Websocket \<Rightarrow> RTC_Websocket" where
  "setPingPongInterval v ms c =
     (let c1 = c\<lparr>pingPongInterval := ms\<rparr>
      in case v of
           Index_ts \<Rightarrow> c1
         | Websocket_ts \<Rightarrow>
             (let c2 = stopPingPong c1
              in if isClientPingEnabled c2 \<and> isOpened c2 then startPingPong c2 else c2))"

definition enableClientPing :: "RTC_Websocket \<Rightarrow> RTC_Websocket" where
  "enableClientPing c = c\<lparr>isClientPingEnabled := True\<rparr>"

definition RTC_Websocket_new :: RTC_Websocket where
  "RTC_Websocket_new =
     onMessage Router
       \<lparr>websocket = None, reconnectionInterval = 5000, connectionState = ''standby'',
        willReconnect = True, canReconnect = True, eventEmitter = new_listeners,
        defaultAuthToken = None, reconnectionTimeout = None, rooms = [],
        isClientPingEnabled = False, pingPongInterval = 20000, pingPongIntervalTimer = None,
        timers = [], next_timer = 0, promises = [], reactions = [], trace = [], clock = 0\<rparr>"

text \<open>\<open>RTC_Websocket.create(uri, options, user_info)\<close>.\<close>

definition create :: "variant \<Rightarrow> json option \<Rightarrow> error option \<times> RTC_Websocket" where
  "create v user_info =
     andThen (connect v RTC_Websocket_new) (\<lambda>ws.
       (None, if truthy_opt user_info then onOpen (AttachInfo (the user_info)) ws else ws))"

subsection \<open>Runs\<close>

text \<open>
  Everything that can happen to a connection: a call of the application, a
  notification of the transport, the host firing a scheduled task or running a
  \<open>then\<close> callback, the clock advancing. The subscription methods all register on
  the connection's emitter (\<open>Subscribe\<close>) or on a room's (\<open>RoomOn\<close>, \<open>RoomOnce\<close>, by
  the room's position in the registry). The notifications of a run (\<open>WsOpen\<close>,
  \<open>WsMessage\<close>, \<open>WsClose\<close>, \<open>WsError\<close>) are those of the current transport,
  \<open>this.websocket\<close>. \<open>createSocket\<close> attaches the same handlers to every transport,
  so a transport that a later \<open>createSocket\<close> has replaced still notifies the
  connection: that is the handler itself (\<open>on_open\<close> and the others) applied to the
  state, the ready state of the current transport being left as it is.
\<close>

datatype input =
    Connect
  | Close
  | Reconnect
  | Send string json ws_receiver
  | JoinRoom string
  | LeaveRoom string
  | SetReconnectionInterval nat
  | SetAuthToken string
  | SetPingPongInterval nat
  | EnableClientPing
  | Subscribe string nat
  | RoomOn nat string nat
  | RoomOnce nat string nat
  | WsOpen
  | WsMessage "RTC_WSEvent option"
  | WsClose
  | WsError
  | Fire nat
  | React nat
  | Tick

definition room_subscribe ::
  "bool \<Rightarrow> nat \<Rightarrow> string \<Rightarrow> nat \<Rightarrow> RTC_Websocket \<Rightarrow> RTC_Websocket" where
  "room_subscribe one_shot i name k c =
     (if i < length (rooms c) then
        c\<lparr>rooms := (rooms c)[i := (rooms c ! i)\<lparr>room_eventEmitter :=
             (if one_shot then RTC_EventEmitter_once name k (room_eventEmitter (rooms c ! i))
              else RTC_EventEmitter_on name k (room_eventEmitter (rooms c ! i)))\<rparr>]\<rparr>
      else c)"

definition step ::
  "variant \<Rightarrow> (json \<Rightarrow> json option) \<Rightarrow> input \<Rightarrow> RTC_Websocket \<Rightarrow> error option \<times> RTC_Websocket" where
  "step v parse i c =
     (case i of
        Connect \<Rightarrow> connect v c
      | Close \<Rightarrow> close v c
      | Reconnect \<Rightarrow> reconnect v c
      | Send event data receiver \<Rightarrow> (None, snd (send event data receiver c))
      | JoinRoom name \<Rightarrow> (None, joinRoom v name c)
      | LeaveRoom name \<Rightarrow> (None, leaveRoom v name c)
      | SetReconnectionInterval n \<Rightarrow> (None, setReconnectionInterval n c)
      | SetAuthToken t \<Rightarrow> (None, setAuthToken t c)
      | SetPingPongInterval n \<Rightarrow> (None, setPingPongInterval v n c)
      | EnableClientPing \<Rightarrow> (None, enableClientPing c)
      | Subscribe name k \<Rightarrow>
          (None, c\<lparr>eventEmitter := RTC_EventEmitter_on name (App k) (eventEmitter c)\<rparr>)
      | RoomOn r name k \<Rightarrow> (None, room_subscribe False r name k c)
      | RoomOnce r name k \<Rightarrow> (None, room_subscribe True r name k c)
      | WsOpen \<Rightarrow> on_open v (set_readyState OPEN c)
      | WsMessage m \<Rightarrow> on_message v parse m c
      | WsClose \<Rightarrow> on_close v (set_readyState CLOSED c)
      | WsError \<Rightarrow> on_error v c
      | Fire h \<Rightarrow> fire v h c
      | React k \<Rightarrow> (None, react k c)
      | Tick \<Rightarrow> (None, c\<lparr>clock := Suc (clock c)\<rparr>))"

text \<open>
  An exception that escapes a handler or a call ends that handler only: the next
  input finds the state as the throw left it.
\<close>

definition run ::
  "variant \<Rightarrow> (json \<Rightarrow> json option) \<Rightarrow> input list \<Rightarrow> RTC_Websocket \<Rightarrow> RTC_Websocket" where
  "run v parse ins c = fold (\<lambda>i c. snd (step v parse i c)) ins c"

subsection \<open>Notions used in the statements\<close>

text \<open>The reconnect timers and the keepalive intervals that are live in the host.\<close>

definition reconnect_timers :: "RTC_Websocket \<Rightarrow> (nat \<times> task) list" where
  "reconnect_timers c = filter (\<lambda>(h, t). t = ReconnectTimeout) (timers c)"

definition keepalive_timers :: "RTC_Websocket \<Rightarrow> (nat \<times> task) list" where
  "keepalive_timers c = filter (\<lambda>(h, t). t = PingPongInterval) (timers c)"

text \<open>
  \<open>quiet c c'\<close>: from \<open>c\<close> to \<open>c'\<close> nothing was scheduled and no reconnection setting
  was switched on; timers may have been cancelled and \<open>canReconnect\<close> switched off.
  \<open>inert\<close> is the same for the reconnect timers alone, whatever else was scheduled;
  \<open>willReconnect\<close> may have been switched off as well.
\<close>

definition quiet :: "RTC_Websocket \<Rightarrow> RTC_Websocket \<Rightarrow> bool" where
  "quiet c c' \<longleftrightarrow>
     willReconnect c' = willReconnect c \<and> (canReconnect c' \<longrightarrow> canReconnect c) \<and>
     reconnectionInterval c' = reconnectionInterval c \<and> next_timer c' = next_timer c \<and>
     reconnectionTimeout c' = reconnectionTimeout c \<and>
     pingPongIntervalTimer c' = pingPongIntervalTimer c \<and>
     (\<exists>P. timers c' = filter P (timers c))"

definition inert :: "RTC_Websocket \<Rightarrow> RTC_Websocket \<Rightarrow> bool" where
  "inert c c' \<longleftrightarrow>
     (willReconnect c' \<longrightarrow> willReconnect c) \<and> (canReconnect c' \<longrightarrow> canReconnect c) \<and>
     (\<exists>P. reconnect_timers c' = filter P (reconnect_timers c))"

text \<open>
  What one \<open>emitEvent(name, event)\<close> on a room amounts to: the calls it makes, its
  persistent listeners first and its one-shot listeners after them, and the room it
  leaves, with the one-shot entry of that name gone.
\<close>

definition room_calls :: "nat \<Rightarrow> string \<Rightarrow> RTC_WSEvent \<Rightarrow> RTC_Room \<Rightarrow> effect list" where
  "room_calls i name ev room =
     map (\<lambda>k. RoomInvoked i name k ev)
       ((case l_on (room_eventEmitter room) name of None \<Rightarrow> [] | Some ks \<Rightarrow> ks) @
        (case l_once (room_eventEmitter room) name of None \<Rightarrow> [] | Some ks \<Rightarrow> ks))"

definition consume :: "string \<Rightarrow> RTC_Room \<Rightarrow> RTC_Room" where
  "consume name room =
     room\<lparr>room_eventEmitter :=
       (room_eventEmitter room)\<lparr>l_once := (l_once (room_eventEmitter room))(name := None)\<rparr>\<rparr>"

text \<open>The frame that \<open>room.leave()\<close> sends for the room \<open>name\<close> at clock time \<open>t\<close>.\<close>

definition leave_frame :: "variant \<Rightarrow> string \<Rightarrow> nat \<Rightarrow> frame" where
  "leave_frame v name t =
     (case v of
        Index_ts \<Rightarrow>
          \<lparr>f_event = ''leave'', f_data = JNull, f_receiver = room_receiver name, f_time = t\<rparr>
      | Websocket_ts \<Rightarrow>
          \<lparr>f_event = ''room_leave'', f_data = JObj [(''reason'', JStr ''conn_close'')],
            f_receiver = room_receiver name, f_time = t\<rparr>)"

text \<open>
  The sends waiting for the next \<open>open\<close>: the one-shot listeners under \<open>open\<close>, in
  the order \<open>dispatch\<close> will run them, and the promise each of them settles.
\<close>

definition queue :: "RTC_Websocket \<Rightarrow> listener list" where
  "queue c = (case l_once (eventEmitter c) ''open'' of None \<Rightarrow> [] | Some ls \<Rightarrow> ls)"

fun qid :: "listener \<Rightarrow> nat" where
  "qid (QueuedSend p f) = p"
| "qid l = 0"

text \<open>The promises that a stretch of the trace settles, in the order it settles them.\<close>

fun settled :: "effect list \<Rightarrow> nat list" where
  "settled [] = []"
| "settled (Settled p r # t) = p # settled t"
| "settled (x # t) = settled t"

text \<open>
  What the source keeps true of the connection's emitter, since the emitter is
  private: the router is registered under \<open>message\<close> only; a queued send is
  registered by \<open>send\<close> only, one-shot and under \<open>open\<close>, for a promise of its own
  that stays pending until it runs; nothing else is ever registered one-shot.
\<close>

definition persistent_listener :: "string \<Rightarrow> listener \<Rightarrow> bool" where
  "persistent_listener name l =
     (case l of Router \<Rightarrow> name = ''message'' | QueuedSend p f \<Rightarrow> False | _ \<Rightarrow> True)"

definition wf :: "RTC_Websocket \<Rightarrow> bool" where
  "wf c \<longleftrightarrow>
     (\<forall>name ls. l_on (eventEmitter c) name = Some ls \<longrightarrow>
        (\<forall>l \<in> set ls. persistent_listener name l)) \<and>
     (\<forall>name ls. l_once (eventEmitter c) name = Some ls \<longrightarrow> name = ''open'') \<and>
     (\<forall>l \<in> set (queue c). \<exists>p f. l = QueuedSend p f \<and> p < length (promises c) \<and>
        promises c ! p = Pending) \<and>
     distinct (map qid (queue c))"

text \<open>
  \<open>keep c c'\<close>: from \<open>c\<close> to \<open>c'\<close> no promise that existed has changed, only promises
  made since have settled, and the queue has only grown at its end.
\<close>

definition keep :: "RTC_Websocket \<Rightarrow> RTC_Websocket \<Rightarrow> bool" where
  "keep c c' \<longleftrightarrow>
     (wf c \<longrightarrow>
        wf c' \<and> length (promises c) \<le> length (promises c') \<and>
        (\<forall>q < length (promises c). promises c' ! q = promises c ! q) \<and>
        (\<exists>qs. queue c' = queue c @ qs) \<and>
        (\<exists>t. trace c' = trace c @ t \<and> (\<forall>q \<in> set (settled t). length (promises c) \<le> q)))"

section \<open>Properties\<close>

lemma forEach_append:
  "forEach f (xs @ ys) s = andThen (forEach f xs s) (forEach f ys)"
  by (induction xs arbitrary: s) (auto simp: andThen_def split: prod.splits option.splits)

subsection \<open>One-shot listeners of class \<open>Event\<close>\<close>

text \<open>
  C6. A listener registered with \<open>once(name, listener)\<close> should be invoked at most
  once over all later dispatches. Class \<open>Event\<close> does not keep to this: its \<open>once\<close>
  pushes the listener onto the persistent array. With a persistent listener \<open>0\<close>
  already registered under \<open>open\<close>, the listener \<open>1\<close> registered with \<open>once\<close> is
  invoked by the first dispatch and again by the second; with no persistent array
  under the name, \<open>once\<close> throws a \<open>TypeError\<close>.
\<close>

theorem Event_once_listener_fires_again:
  "snd (snd (Event_dispatch ''open''
       (snd (Event_dispatch ''open''
          (snd (Event_once ''open'' (1::nat) (Event_on ''open'' 0 new_listeners)), [])))))
     = [0, 1, 0, 1]
   \<and> fst (Event_once ''open'' (1::nat) new_listeners) = Some TypeError"
  by (simp add: Event_dispatch_def Event_once_def Event_on_def new_listeners_def
        RTC_EventEmitter_dispatch_def andThen_def)

subsection \<open>Frames without a sender\<close>

text \<open>
  C10. For a decoded frame whose event name is neither \<open>ping\<close> nor \<open>pong\<close>, the
  message handler reads \<open>event.sender.info\<close> before it dispatches anything. A frame
  without a \<open>sender\<close> therefore makes the handler throw a \<open>TypeError\<close>, and the
  connection is left exactly as it was: no listener of \<open>message\<close>, of \<open>event\<close> or of
  a room has run. This holds in both files.
\<close>

theorem on_message_without_sender_fails:
  assumes "ev_sender ev = None"
    and "ev_event ev \<noteq> Some ''ping''"
    and "ev_event ev \<noteq> Some ''pong''"
  shows "on_message v parse (Some ev) c = (Some TypeError, c)
       \<and> step v parse (WsMessage (Some ev)) c = (Some TypeError, c)"
  using assms by (simp add: step_def on_message_def)

theorem on_message_without_sender_fails_witness:
  "on_message Websocket_ts Some
     (Some \<lparr>ev_event = Some ''chat'', ev_time = 0, ev_data = None, ev_sender = None,
            ev_receiver = Some (room_receiver ''lobby''), ev_meta = None\<rparr>)
     RTC_Websocket_new = (Some TypeError, RTC_Websocket_new)
   \<and> step Index_ts Some
     (WsMessage (Some \<lparr>ev_event = Some ''chat'', ev_time = 0, ev_data = None, ev_sender = None,
            ev_receiver = Some (room_receiver ''lobby''), ev_meta = None\<rparr>))
     RTC_Websocket_new = (Some TypeError, RTC_Websocket_new)"
  using on_message_without_sender_fails
          [of "\<lparr>ev_event = Some ''chat'', ev_time = 0, ev_data = None, ev_sender = None,
                ev_receiver = Some (room_receiver ''lobby''), ev_meta = None\<rparr>"
              Websocket_ts Some RTC_Websocket_new]
        on_message_without_sender_fails
          [of "\<lparr>ev_event = Some ''chat'', ev_time = 0, ev_data = None, ev_sender = None,
                ev_receiver = Some (room_receiver ''lobby''), ev_meta = None\<rparr>"
              Index_ts Some RTC_Websocket_new]
  by simp

subsection \<open>What a dispatch can change\<close>

lemma quiet_refl [simp]: "quiet c c"
  unfolding quiet_def by (auto intro: exI[of _ "\<lambda>_. True"])

lemma quiet_trans: "quiet a b \<Longrightarrow> quiet b c \<Longrightarrow> quiet a c"
  unfolding quiet_def
  apply clarsimp
  subgoal for P Q by (rule exI[of _ "\<lambda>x. P x \<and> Q x"]) simp
  done

lemma quietI:
  "willReconnect c' = willReconnect c \<Longrightarrow> canReconnect c' = canReconnect c \<Longrightarrow>
   reconnectionInterval c' = reconnectionInterval c \<Longrightarrow> next_timer c' = next_timer c \<Longrightarrow>
   reconnectionTimeout c' = reconnectionTimeout c \<Longrightarrow>
   pingPongIntervalTimer c' = pingPongIntervalTimer c \<Longrightarrow>
   timers c' = timers c \<Longrightarrow> quiet c c'"
  unfolding quiet_def by (auto intro: exI[of _ "\<lambda>_. True"])

lemma forEach_rel:
  assumes step: "\<And>l s e s'. f l s = (e, s') \<Longrightarrow> R s s'"
    and refl: "\<And>s. R s s"
    and trans: "\<And>a b c. R a b \<Longrightarrow> R b c \<Longrightarrow> R a c"
  shows "forEach f ls s = (e, s') \<Longrightarrow> R s s'"
proof (induction ls arbitrary: s)
  case Nil
  then show ?case by (simp add: refl)
next
  case (Cons l ls)
  obtain e1 s1 where f: "f l s = (e1, s1)" by (cases "f l s")
  show ?case
  proof (cases e1)
    case None
    with Cons.prems f have "forEach f ls s1 = (e, s')" by simp
    from Cons.IH[OF this] step[OF f] show ?thesis by (rule trans[rotated])
  next
    case (Some x)
    with Cons.prems f have "s' = s1" by simp
    with step[OF f] show ?thesis by simp
  qed
qed

lemma dispatch_rel:
  assumes call: "\<And>b l s e s'. call b l s = (e, s') \<Longrightarrow> R s s'"
    and set: "\<And>L s. R s (setL L s)"
    and refl: "\<And>s. R s s"
    and trans: "\<And>a b c. R a b \<Longrightarrow> R b c \<Longrightarrow> R a c"
  shows "RTC_EventEmitter_dispatch getL setL call name s = (e, s') \<Longrightarrow> R s s'"
proof -
  assume d: "RTC_EventEmitter_dispatch getL setL call name s = (e, s')"
  have fe: "\<And>b ls s e s'. forEach (call b) ls s = (e, s') \<Longrightarrow> R s s'"
    by (rule forEach_rel[where f="call _"]) (auto intro: call refl trans)
  obtain e1 s1 where p1: "(case l_on (getL s) name of None \<Rightarrow> (None, s)
        | Some ls \<Rightarrow> forEach (call True) ls s) = (e1, s1)"
    by (cases "(case l_on (getL s) name of None \<Rightarrow> (None, s)
        | Some ls \<Rightarrow> forEach (call True) ls s)")
  have r1: "R s s1" using p1 by (auto split: option.splits intro: refl fe)
  show "R s s'"
  proof (cases e1)
    case (Some x)
    with d p1 have "s' = s1" by (simp add: RTC_EventEmitter_dispatch_def andThen_def)
    with r1 show ?thesis by simp
  next
    case None
    show ?thesis
    proof (cases "l_once (getL s1) name")
      case n: None
      with d p1 None have "s' = s1" by (simp add: RTC_EventEmitter_dispatch_def andThen_def)
      with r1 show ?thesis by simp
    next
      case (Some ls)
      obtain e2 s2 where p2: "forEach (call False) ls s1 = (e2, s2)"
        by (cases "forEach (call False) ls s1")
      have r2: "R s1 s2" by (rule fe[OF p2])
      show ?thesis
      proof (cases e2)
        case n2: None
        with d p1 None Some p2
        have "s' = setL ((getL s2)\<lparr>l_once := (l_once (getL s2))(name := None)\<rparr>) s2"
          by (simp add: RTC_EventEmitter_dispatch_def andThen_def)
        then show ?thesis using r1 r2 set trans by blast
      next
        case s2: (Some y)
        with d p1 None Some p2 have "s' = s2"
          by (simp add: RTC_EventEmitter_dispatch_def andThen_def)
        then show ?thesis using r1 r2 trans by blast
      qed
    qed
  qed
qed

lemma quiet_settle: "quiet c (settle p r c)"
  by (simp add: settle_def quietI)

lemma quiet_try_send: "quiet c (try_send p f c)"
  by (auto simp: try_send_def settle_def quietI split: option.splits sum.splits)

lemma quiet_send: "quiet c (snd (send e d r c))"
  by (auto simp: send_def Let_def try_send_def settle_def quietI split: option.splits sum.splits)


lemma quiet_sendToSystem: "quiet c (snd (sendToSystem e d c))"
  by (simp add: sendToSystem_def quiet_send)

lemma quiet_attachInfo: "quiet c (attachInfo info c)"
  by (simp add: attachInfo_def quiet_send)

lemma quiet_RTC_Room_joinRoom: "quiet c (RTC_Room_joinRoom v name c)"
  by (simp add: RTC_Room_joinRoom_def quiet_send)

lemma quiet_RTC_Room_leave: "quiet c (snd (RTC_Room_leave v room c))"
  by (cases v) (simp_all add: RTC_Room_leave_def quiet_send)

lemma quiet_clearTimer: "quiet c (clearTimer h c)"
  unfolding quiet_def clearTimer_def by auto

lemma quiet_RTC_Room_emitEvent: "quiet c (RTC_Room_emitEvent i name ev c)"
proof -
  obtain e c' where d: "RTC_EventEmitter_dispatch
            (\<lambda>c. room_eventEmitter (rooms c ! i))
            (\<lambda>L c. c\<lparr>rooms := (rooms c)[i := (rooms c ! i)\<lparr>room_eventEmitter := L\<rparr>]\<rparr>)
            (\<lambda>spread k c. (None, c\<lparr>trace := trace c @ [RoomInvoked i name k ev]\<rparr>))
            name c = (e, c')"
    by (cases "RTC_EventEmitter_dispatch
            (\<lambda>c. room_eventEmitter (rooms c ! i))
            (\<lambda>L c. c\<lparr>rooms := (rooms c)[i := (rooms c ! i)\<lparr>room_eventEmitter := L\<rparr>]\<rparr>)
            (\<lambda>spread k c. (None, c\<lparr>trace := trace c @ [RoomInvoked i name k ev]\<rparr>))
            name c")
  have "quiet c c'"
    by (rule dispatch_rel[OF _ _ _ _ d, where R=quiet])
       (auto simp: quietI intro: quiet_trans)
  with d show ?thesis by (simp add: RTC_Room_emitEvent_def)
qed

lemma quiet_invoke0: "invoke0 v name arg b l c = (e, c') \<Longrightarrow> quiet c c'"
  by (cases l)
     (auto simp: invoke0_def quietI quiet_RTC_Room_joinRoom quiet_attachInfo quiet_try_send)

lemma quiet_dispatch0: "dispatch0 v name arg c = (e, c') \<Longrightarrow> quiet c c'"
  unfolding dispatch0_def
  by (erule dispatch_rel[where R=quiet, rotated -1])
     (auto simp: quietI intro: quiet_trans quiet_invoke0)

lemma quiet_reject:
  "quiet c ((stopReconnectionTimeout (stopPingPong c))\<lparr>canReconnect := False\<rparr>)"
proof -
  have "quiet (stopReconnectionTimeout (stopPingPong c))
          ((stopReconnectionTimeout (stopPingPong c))\<lparr>canReconnect := False\<rparr>)"
    unfolding quiet_def by (auto intro: exI[of _ "\<lambda>_. True"])
  moreover have "quiet c (stopReconnectionTimeout (stopPingPong c))"
    unfolding stopReconnectionTimeout_def stopPingPong_def
    by (rule quiet_trans[OF quiet_clearTimer quiet_clearTimer])
  ultimately show ?thesis by (rule quiet_trans[rotated])
qed

lemma quiet_router: "router v ev c = (e, c') \<Longrightarrow> quiet c c'"
proof -
  assume r: "router v ev c = (e, c')"
  show ?thesis
  proof (cases "ev_event ev")
    case None
    with r show ?thesis by (simp add: router_def)
  next
    case (Some name)
    show ?thesis
    proof (cases "name = []")
      case True
      with r Some show ?thesis by (simp add: router_def)
    next
      case False
      obtain e1 c1 where d1: "dispatch0 v ''event'' (Some ev) c = (e1, c1)"
        by (cases "dispatch0 v ''event'' (Some ev) c")
      obtain e2 c2 where d2: "dispatch0 v (''event.'' @ name) (Some ev) c1 = (e2, c2)"
        by (cases "dispatch0 v (''event.'' @ name) (Some ev) c1")
      have q1: "quiet c c1" by (rule quiet_dispatch0[OF d1])
      have q2: "quiet c1 c2" by (rule quiet_dispatch0[OF d2])
      have q12: "quiet c c2" by (rule quiet_trans[OF q1 q2])
      show ?thesis
      proof (cases e1)
        case s1: (Some x)
        with r Some False d1 have "c' = c1" by (simp add: router_def andThen_def)
        with q1 show ?thesis by simp
      next
        case n1: None
        show ?thesis
        proof (cases e2)
          case s2: (Some x)
          with r Some False d1 d2 n1 have "c' = c2" by (simp add: router_def andThen_def)
          with q12 show ?thesis by simp
        next
          case n2: None
          have "quiet c2 c'"
            using r Some False d1 d2 n1 n2
            by (auto simp: router_def andThen_def Let_def
                  split: option.splits if_splits
                  intro: quiet_reject quiet_RTC_Room_emitEvent
                         quiet_trans[OF quiet_RTC_Room_emitEvent quiet_RTC_Room_emitEvent])
          with q12 show ?thesis by (rule quiet_trans)
        qed
      qed
    qed
  qed
qed

lemma quiet_invoke: "invoke v name arg b l c = (e, c') \<Longrightarrow> quiet c c'"
  by (cases l)
     (auto simp: invoke_def split: if_splits option.splits
           dest: quiet_router quiet_invoke0)

lemma quiet_dispatch: "dispatch v name arg c = (e, c') \<Longrightarrow> quiet c c'"
  unfolding dispatch_def
  by (erule dispatch_rel[where R=quiet, rotated -1])
     (auto simp: quietI intro: quiet_trans quiet_invoke)

subsection \<open>What the lifecycle can schedule\<close>

lemma inert_refl [simp]: "inert c c"
  unfolding inert_def by (auto intro: exI[of _ "\<lambda>_. True"])

lemma inert_trans: "inert a b \<Longrightarrow> inert b c \<Longrightarrow> inert a c"
  unfolding inert_def
  apply clarsimp
  subgoal for P Q by (rule exI[of _ "\<lambda>x. P x \<and> Q x"]) simp
  done

lemma quiet_imp_inert: "quiet c c' \<Longrightarrow> inert c c'"
  unfolding quiet_def inert_def reconnect_timers_def
  apply clarsimp
  subgoal for P by (rule exI[of _ P]) (simp add: conj_commute)
  done

lemma inertI:
  "willReconnect c' = willReconnect c \<Longrightarrow> canReconnect c' = canReconnect c \<Longrightarrow>
   reconnect_timers c' = reconnect_timers c \<Longrightarrow> inert c c'"
  unfolding inert_def by (auto intro: exI[of _ "\<lambda>_. True"])

lemma inert_subset: "inert c c' \<Longrightarrow> set (reconnect_timers c') \<subseteq> set (reconnect_timers c)"
  unfolding inert_def by auto

lemma inert_length: "inert c c' \<Longrightarrow> length (reconnect_timers c') \<le> length (reconnect_timers c)"
  unfolding inert_def by auto

lemma inert_schedule: "t \<noteq> ReconnectTimeout \<Longrightarrow> inert c (snd (schedule t c))"
  by (rule inertI) (simp_all add: schedule_def reconnect_timers_def)

lemma inert_startPingPong: "inert c (startPingPong c)"
  by (rule inertI) (simp_all add: startPingPong_def schedule_def reconnect_timers_def)

lemma inert_closeConnection_False: "closeConnection v False c = (e, c') \<Longrightarrow> inert c c'"
proof (cases v)
  case Index_ts
  assume "closeConnection v False c = (e, c')"
  with Index_ts show ?thesis
    by (auto simp: closeConnection_def reconnect_timers_def split: option.splits intro!: inertI)
next
  case Websocket_ts
  assume "closeConnection v False c = (e, c')"
  with Websocket_ts have c': "c' = snd (schedule ImmediateWsClose
      (if isOpened c then snd (sendToSystem ''conn_close'' (JObj [(''reason'', JStr ''general'')]) c) else c))"
    by (auto simp: closeConnection_def Let_def)
  have "inert c (if isOpened c then snd (sendToSystem ''conn_close'' (JObj [(''reason'', JStr ''general'')]) c) else c)"
    by (simp add: quiet_imp_inert quiet_sendToSystem)
  then show ?thesis unfolding c'
    by (rule inert_trans) (simp add: inert_schedule)
qed

lemma inert_closeNativeWebsocketConnection: "inert c (closeNativeWebsocketConnection c)"
  by (auto simp: closeNativeWebsocketConnection_def Let_def schedule_def reconnect_timers_def
           split: option.splits intro!: inertI)

lemma inert_createSocket: "createSocket v b c = (e, c') \<Longrightarrow> inert c c'"
proof -
  assume cs: "createSocket v b c = (e, c')"
  define c0 where "c0 = c\<lparr>connectionState := (if b then ''reconnecting'' else ''connecting'')\<rparr>"
  obtain e1 c1 where d: "dispatch v (if b then ''reconnecting'' else ''connecting'') None c0 = (e1, c1)"
    by (cases "dispatch v (if b then ''reconnecting'' else ''connecting'') None c0")
  have i0: "inert c c0" unfolding c0_def by (rule inertI) (simp_all add: reconnect_timers_def)
  have i1: "inert c0 c1" by (rule quiet_imp_inert[OF quiet_dispatch[OF d]])
  have i01: "inert c c1" by (rule inert_trans[OF i0 i1])
  show ?thesis
  proof (cases e1)
    case (Some x)
    with cs d have "c' = c1" by (auto simp: createSocket_def andThen_def c0_def split: if_splits)
    with i01 show ?thesis by simp
  next
    case None
    with cs d have c': "c' = (closeNativeWebsocketConnection c1)
                       \<lparr>websocket := Some \<lparr>readyState = CONNECTING, sent = []\<rparr>\<rparr>"
      by (auto simp: createSocket_def andThen_def c0_def split: if_splits)
    have "inert (closeNativeWebsocketConnection c1) c'"
      unfolding c' by (rule inertI) (simp_all add: reconnect_timers_def)
    with i01 inert_closeNativeWebsocketConnection[of c1] show ?thesis
      by (blast intro: inert_trans)
  qed
qed

text \<open>The reconnection procedure when it has nothing to schedule.\<close>

lemma reconnect_body_zero:
  assumes "reconnectionInterval c = 0" and "reconnect_body v c = (e, c')"
  shows "reconnect_timers c' = reconnect_timers c \<and> reconnectionInterval c' = 0"
proof -
  obtain e1 c1 where cc: "closeConnection v True c = (e1, c1)"
    by (cases "closeConnection v True c")
  have "reconnect_timers c1 = reconnect_timers c \<and> reconnectionInterval c1 = 0"
    using cc assms(1)
    by (cases v)
       (auto simp: closeConnection_def Let_def reconnect_timers_def schedule_def isOpened_def
             split: option.splits)
  with cc assms(2) show ?thesis
    by (cases e1) (auto simp: reconnect_body_def andThen_def)
qed

lemma reconnect_zero:
  assumes "reconnectionInterval c = 0" and "reconnect v c = (e, c')"
  shows "reconnect_timers c' = reconnect_timers c \<and> reconnectionInterval c' = 0"
  using assms reconnect_body_zero[of c v e c']
  by (cases v) (auto simp: reconnect_def split: if_splits)

lemma reconnect_body_nonzero:
  assumes "reconnectionInterval c \<noteq> 0" and "v = Index_ts \<longrightarrow> websocket c \<noteq> None"
  shows "\<exists>h c'. reconnect_body v c = (None, c') \<and> next_timer c \<le> h \<and>
           reconnect_timers c' = reconnect_timers c @ [(h, ReconnectTimeout)] \<and>
           reconnectionTimeout c' = Some h"
  using assms
  by (cases v)
     (auto simp: reconnect_body_def closeConnection_def andThen_def Let_def schedule_def
           reconnect_timers_def isOpened_def)


lemma inert_clearTimer: "inert c (clearTimer h c)"
  by (rule quiet_imp_inert[OF quiet_clearTimer])

lemma reconnect_disabled: "\<not> canReconnect c \<Longrightarrow> reconnect Websocket_ts c = (None, c)"
  by (simp add: reconnect_def)

lemma inert_dispatch: "dispatch v name arg c = (e, c') \<Longrightarrow> inert c c'"
  by (rule quiet_imp_inert[OF quiet_dispatch])

lemma inert_changeState:
  assumes "changeState v name c = (e, c')"
    and "name \<noteq> ''close'' \<or> \<not> willReconnect c \<or> (v = Websocket_ts \<and> \<not> canReconnect c)"
  shows "inert c c'"
proof -
  let ?c1 = "c\<lparr>connectionState := name\<rparr>"
  have i1: "inert c ?c1" by (rule inertI) (simp_all add: reconnect_timers_def)
  have "(if ''close'' = name \<and> willReconnect ?c1 then reconnect v ?c1 else (None, ?c1)) = (None, ?c1)"
    using assms(2) by (auto simp: reconnect_def)
  with assms(1) have "dispatch v name None ?c1 = (e, c')"
    by (simp add: changeState_def Let_def andThen_def)
  from inert_dispatch[OF this] i1 show ?thesis by (blast intro: inert_trans)
qed

lemma inert_on_open: "on_open v c = (e, c') \<Longrightarrow> inert c c'"
proof -
  assume oo: "on_open v c = (e, c')"
  let ?c1 = "(if truthy_str (defaultAuthToken c)
                then snd (send ''auth.token'' (JStr (the (defaultAuthToken c))) no_receiver c)
                else c)"
  have i1: "inert c ?c1" by (simp add: quiet_imp_inert quiet_send)
  obtain e2 c2 where d: "(if ''reconnecting'' = connectionState ?c1
            then dispatch v ''reconnect'' None ?c1 else (None, ?c1)) = (e2, c2)"
    by (cases "(if ''reconnecting'' = connectionState ?c1
            then dispatch v ''reconnect'' None ?c1 else (None, ?c1))")
  have i2: "inert ?c1 c2"
    using d by (cases "''reconnecting'' = connectionState ?c1") (auto dest: inert_dispatch)
  have oo': "andThen (e2, c2) (\<lambda>c2. changeState v ''open''
                    (case v of
                       Index_ts \<Rightarrow> startPingPong c2
                     | Websocket_ts \<Rightarrow> if isClientPingEnabled c2 then startPingPong c2 else c2)) = (e, c')"
    using oo unfolding on_open_def Let_def d .
  show ?thesis
  proof (cases e2)
    case (Some x)
    with oo' have "c' = c2" by (simp add: andThen_def)
    with i1 i2 show ?thesis by (blast intro: inert_trans)
  next
    case None
    let ?c3 = "(case v of Index_ts \<Rightarrow> startPingPong c2
                     | Websocket_ts \<Rightarrow> if isClientPingEnabled c2 then startPingPong c2 else c2)"
    have i3: "inert c2 ?c3" by (cases v) (simp_all add: inert_startPingPong)
    from oo' None have "changeState v ''open'' ?c3 = (e, c')"
      by (simp add: andThen_def)
    from inert_changeState[OF this] have "inert ?c3 c'" by simp
    with i1 i2 i3 show ?thesis by (blast intro: inert_trans)
  qed
qed

lemma inert_on_message: "on_message v parse m c = (e, c') \<Longrightarrow> inert c c'"
  by (auto simp: on_message_def split: option.splits if_splits sum.splits
           dest: inert_dispatch intro: quiet_imp_inert quiet_sendToSystem)

lemma inert_on_error: "on_error v c = (e, c') \<Longrightarrow> inert c c'"
  unfolding on_error_def by (erule inert_changeState) simp

lemma inert_set_readyState: "inert c (set_readyState r c)"
  by (rule inertI) (simp_all add: set_readyState_def reconnect_timers_def)

lemma inert_on_close:
  assumes "on_close v c = (e, c')"
    and "\<not> willReconnect c \<or> (v = Websocket_ts \<and> \<not> canReconnect c)"
  shows "inert c c'"
proof -
  have "inert (stopPingPong c) c'"
    using assms unfolding on_close_def
    by (elim inert_changeState) (auto simp: stopPingPong_def clearTimer_def)
  with inert_clearTimer[of c "pingPongIntervalTimer c"] show ?thesis
    unfolding stopPingPong_def by (blast intro: inert_trans)
qed

lemma inert_ping: "inert c (ping v c)"
  by (cases v) (simp_all add: ping_def quiet_imp_inert quiet_send quiet_sendToSystem)

lemma inert_fire: "fire v h c = (e, c') \<Longrightarrow> inert c c'"
proof -
  assume f: "fire v h c = (e, c')"
  show ?thesis
  proof (cases "map_of (timers c) h")
    case None
    with f show ?thesis by (simp add: fire_def)
  next
    case (Some t)
    show ?thesis
    proof (cases t)
      case ReconnectTimeout
      with f Some have "createSocket v True (clearTimer (Some h) c) = (e, c')"
        by (simp add: fire_def)
      from inert_createSocket[OF this] inert_clearTimer[of c "Some h"] show ?thesis
        by (blast intro: inert_trans)
    next
      case PingPongInterval
      with f Some show ?thesis by (auto simp: fire_def inert_ping)
    next
      case ClosePollInterval
      have "inert (clearTimer (Some h) c) (clearTimer (Some h) (c\<lparr>websocket := w\<rparr>))" for w
        by (rule inertI) (simp_all add: clearTimer_def reconnect_timers_def)
      with f Some ClosePollInterval inert_clearTimer[of c "Some h"] show ?thesis
        by (auto simp: fire_def split: option.splits if_splits intro: inert_trans)
    next
      case ImmediateWsClose
      have "inert (clearTimer (Some h) c) ((clearTimer (Some h) c)\<lparr>websocket := w\<rparr>)" for w
        by (rule inertI) (simp_all add: reconnect_timers_def)
      with f Some ImmediateWsClose inert_clearTimer[of c "Some h"] show ?thesis
        by (auto simp: fire_def Let_def split: option.splits if_splits intro: inert_trans)
    next
      case ImmediateDisconnect
      obtain e1 c1 where cc: "closeConnection v False (clearTimer (Some h) c) = (e1, c1)"
        by (cases "closeConnection v False (clearTimer (Some h) c)")
      have i1: "inert c c1"
        using inert_closeConnection_False[OF cc] inert_clearTimer[of c "Some h"]
        by (blast intro: inert_trans)
      show ?thesis
      proof (cases e1)
        case None
        with f Some ImmediateDisconnect cc have "dispatch v ''custom.disconnect'' None c1 = (e, c')"
          by (simp add: fire_def andThen_def)
        from inert_dispatch[OF this] i1 show ?thesis by (blast intro: inert_trans)
      next
        case (Some x)
        with f \<open>map_of (timers c) h = Some t\<close> ImmediateDisconnect cc have "c' = c1"
          by (simp add: fire_def andThen_def)
        with i1 show ?thesis by simp
      qed
    qed
  qed
qed


lemma quiet_fold_leave:
  "quiet c (fold (\<lambda>room c. snd (RTC_Room_leave v room c)) rs c)"
proof (induction rs arbitrary: c)
  case Nil
  show ?case by simp
next
  case (Cons r rs)
  have "quiet c (snd (RTC_Room_leave v r c))" by (rule quiet_RTC_Room_leave)
  with Cons.IH[of "snd (RTC_Room_leave v r c)"] show ?case
    by (auto intro: quiet_trans)
qed

lemma inert_willReconnect_False: "inert c (c\<lparr>willReconnect := False\<rparr>)"
  unfolding inert_def reconnect_timers_def by (auto intro: exI[of _ "\<lambda>_. True"])

lemma inert_close: "close v c = (e, c') \<Longrightarrow> inert c c'"
proof (cases v)
  case Index_ts
  assume cl: "close v c = (e, c')"
  let ?c1 = "c\<lparr>willReconnect := False\<rparr>"
  obtain e2 c2 where cc: "closeConnection v False ?c1 = (e2, c2)"
    by (cases "closeConnection v False ?c1")
  have i2: "inert c c2"
    using inert_closeConnection_False[OF cc] inert_willReconnect_False[of c]
    by (blast intro: inert_trans)
  show ?thesis
  proof (cases e2)
    case (Some x)
    with cl cc Index_ts have "c' = c2" by (simp add: close_def Let_def andThen_def)
    with i2 show ?thesis by simp
  next
    case None
    with cl cc Index_ts
    have d: "dispatch v ''custom.disconnect'' None (stopPingPong (stopReconnectionTimeout c2)) = (e, c')"
      by (simp add: close_def Let_def andThen_def)
    have "inert c2 (stopPingPong (stopReconnectionTimeout c2))"
      unfolding stopPingPong_def stopReconnectionTimeout_def
      by (blast intro: inert_trans inert_clearTimer)
    with inert_dispatch[OF d] i2 show ?thesis by (blast intro: inert_trans)
  qed
next
  case Websocket_ts
  assume cl: "close v c = (e, c')"
  let ?c1 = "c\<lparr>willReconnect := False\<rparr>"
  let ?c2 = "stopReconnectionTimeout (stopPingPong ?c1)"
  let ?c3 = "fold (\<lambda>room c. snd (RTC_Room_leave v room c)) (rooms ?c2) ?c2"
  from cl Websocket_ts have c': "c' = snd (schedule ImmediateDisconnect ?c3)"
    by (simp add: close_def Let_def)
  have "inert ?c1 ?c2"
    unfolding stopPingPong_def stopReconnectionTimeout_def
    by (blast intro: inert_trans inert_clearTimer)
  moreover have "inert ?c2 ?c3" by (rule quiet_imp_inert[OF quiet_fold_leave])
  moreover have "inert ?c3 c'" unfolding c' by (rule inert_schedule) simp
  ultimately show ?thesis using inert_willReconnect_False[of c] by (blast intro: inert_trans)
qed

lemma inert_joinRoom: "inert c (joinRoom v name c)"
proof -
  have "inert c (snd (RTC_Room_new v name c))"
    by (auto simp: RTC_Room_new_def onOpen_def reconnect_timers_def
             intro: quiet_imp_inert quiet_RTC_Room_joinRoom inertI)
  moreover have "inert c1 (c1\<lparr>rooms := r\<rparr>)" for c1 r
    by (rule inertI) (simp_all add: reconnect_timers_def)
  ultimately show ?thesis
    by (auto simp: joinRoom_def split: prod.splits intro: inert_trans)
qed

lemma inert_leaveRoom: "inert c (leaveRoom v name c)"
proof -
  have "inert c1 (c1\<lparr>reactions := r\<rparr>)" for c1 r
    by (rule inertI) (simp_all add: reconnect_timers_def)
  moreover have "inert c (snd (RTC_Room_leave v room c))" for room
    by (rule quiet_imp_inert[OF quiet_RTC_Room_leave])
  ultimately show ?thesis
    by (auto simp: leaveRoom_def split: option.splits prod.splits intro: inert_trans)
       (metis inert_trans snd_conv)
qed

lemma inert_react: "inert c (react k c)"
  by (auto simp: react_def reconnect_timers_def split: prod.splits pstate.splits intro!: inertI)

lemma inert_setPingPongInterval: "inert c (setPingPongInterval v ms c)"
proof -
  let ?c1 = "c\<lparr>pingPongInterval := ms\<rparr>"
  have i1: "inert c ?c1" by (rule inertI) (simp_all add: reconnect_timers_def)
  have i2: "inert ?c1 (stopPingPong ?c1)" unfolding stopPingPong_def by (rule inert_clearTimer)
  have i3: "inert (stopPingPong ?c1) (startPingPong (stopPingPong ?c1))"
    by (rule inert_startPingPong)
  show ?thesis
    using i1 i2 i3 by (cases v) (auto simp: setPingPongInterval_def Let_def intro: inert_trans)
qed

lemma inert_room_subscribe: "inert c (room_subscribe b i name k c)"
  by (auto simp: room_subscribe_def reconnect_timers_def intro!: inertI)

text \<open>
  Every input but an explicit \<open>reconnect()\<close>, and but a transport \<open>close\<close> that finds
  reconnection enabled, leaves the reconnect timers as they are or fewer.
\<close>

lemma inert_step:
  assumes "step v parse i c = (e, c')"
    and "i \<noteq> Reconnect"
    and "i = WsClose \<longrightarrow> \<not> willReconnect c \<or> (v = Websocket_ts \<and> \<not> canReconnect c)"
  shows "inert c c'"
proof (cases i)
  case Connect
  with assms show ?thesis by (auto simp: step_def connect_def dest: inert_createSocket)
next
  case Close
  with assms show ?thesis by (auto simp: step_def dest: inert_close)
next
  case Reconnect
  with assms show ?thesis by simp
next
  case (Send x41 x42 x43)
  with assms show ?thesis by (auto simp: step_def intro: quiet_imp_inert quiet_send)
next
  case (JoinRoom x5)
  with assms show ?thesis by (auto simp: step_def inert_joinRoom)
next
  case (LeaveRoom x6)
  with assms show ?thesis by (auto simp: step_def inert_leaveRoom)
next
  case (SetReconnectionInterval x7)
  with assms show ?thesis
    by (auto simp: step_def setReconnectionInterval_def reconnect_timers_def intro!: inertI)
next
  case (SetAuthToken x8)
  with assms show ?thesis
    by (auto simp: step_def setAuthToken_def reconnect_timers_def intro!: inertI)
next
  case (SetPingPongInterval x9)
  with assms show ?thesis by (auto simp: step_def inert_setPingPongInterval)
next
  case EnableClientPing
  with assms show ?thesis
    by (auto simp: step_def enableClientPing_def reconnect_timers_def intro!: inertI)
next
  case (Subscribe x111 x112)
  with assms show ?thesis by (auto simp: step_def reconnect_timers_def intro!: inertI)
next
  case (RoomOn x121 x122 x123)
  with assms show ?thesis by (auto simp: step_def inert_room_subscribe)
next
  case (RoomOnce x131 x132 x133)
  with assms show ?thesis by (auto simp: step_def inert_room_subscribe)
next
  case WsOpen
  with assms have "on_open v (set_readyState OPEN c) = (e, c')" by (simp add: step_def)
  from inert_on_open[OF this] inert_set_readyState[of c OPEN] show ?thesis
    by (blast intro: inert_trans)
next
  case (WsMessage x15)
  with assms show ?thesis by (auto simp: step_def dest: inert_on_message)
next
  case WsClose
  with assms have oc: "on_close v (set_readyState CLOSED c) = (e, c')" by (simp add: step_def)
  have "inert (set_readyState CLOSED c) c'"
    using assms(3) WsClose by (intro inert_on_close[OF oc]) (simp add: set_readyState_def)
  with inert_set_readyState[of c CLOSED] show ?thesis by (blast intro: inert_trans)
next
  case WsError
  with assms show ?thesis by (auto simp: step_def dest: inert_on_error)
next
  case (Fire x18)
  with assms show ?thesis by (auto simp: step_def dest: inert_fire)
next
  case (React x19)
  with assms show ?thesis by (auto simp: step_def inert_react)
next
  case Tick
  with assms show ?thesis by (auto simp: step_def reconnect_timers_def intro!: inertI)
qed

subsection \<open>Explicit reconnection and the reconnection interval\<close>

lemma reconnect_cases:
  assumes "reconnect v c = (e, c')"
  shows "(canReconnect c' \<longrightarrow> canReconnect c) \<and>
         (reconnect_timers c' = reconnect_timers c \<or>
          (\<exists>h. reconnect_timers c' = reconnect_timers c @ [(h, ReconnectTimeout)]))"
  using assms
  by (cases v)
     (auto simp: reconnect_def reconnect_body_def closeConnection_def andThen_def Let_def
           schedule_def reconnect_timers_def isOpened_def
           split: option.splits if_splits)

lemma changeState_zero:
  assumes "reconnectionInterval c = 0" and "changeState v name c = (e, c')"
  shows "set (reconnect_timers c') \<subseteq> set (reconnect_timers c)"
proof -
  let ?c1 = "c\<lparr>connectionState := name\<rparr>"
  obtain e2 c2 where r: "(if ''close'' = name \<and> willReconnect ?c1 then reconnect v ?c1
                          else (None, ?c1)) = (e2, c2)"
    by (cases "(if ''close'' = name \<and> willReconnect ?c1 then reconnect v ?c1 else (None, ?c1))")
  have rt2: "reconnect_timers c2 = reconnect_timers c"
  proof (cases "''close'' = name \<and> willReconnect ?c1")
    case True
    with r have "reconnect v ?c1 = (e2, c2)" by simp
    from reconnect_zero[OF _ this] assms(1) show ?thesis by (simp add: reconnect_timers_def)
  next
    case False
    with r show ?thesis by (auto simp: reconnect_timers_def)
  qed
  have cs: "andThen (e2, c2) (dispatch v name None) = (e, c')"
    using assms(2) unfolding changeState_def Let_def r .
  show ?thesis
  proof (cases e2)
    case None
    with cs have "dispatch v name None c2 = (e, c')" by (simp add: andThen_def)
    from inert_subset[OF inert_dispatch[OF this]] rt2 show ?thesis by simp
  next
    case (Some x)
    with cs rt2 show ?thesis by (simp add: andThen_def)
  qed
qed

lemma on_close_zero:
  assumes "reconnectionInterval c = 0" and "step v parse WsClose c = (e, c')"
  shows "set (reconnect_timers c') \<subseteq> set (reconnect_timers c)"
proof -
  let ?c0 = "stopPingPong (set_readyState CLOSED c)"
  from assms(2) have "changeState v ''close'' ?c0 = (e, c')"
    by (simp add: step_def on_close_def)
  from changeState_zero[OF _ this] assms(1)
  have "set (reconnect_timers c') \<subseteq> set (reconnect_timers ?c0)"
    by (simp add: stopPingPong_def clearTimer_def set_readyState_def)
  moreover have "set (reconnect_timers ?c0) \<subseteq> set (reconnect_timers c)"
    by (auto simp: stopPingPong_def clearTimer_def set_readyState_def reconnect_timers_def)
  ultimately show ?thesis by blast
qed

text \<open>
  C2, as amended. With a reconnection interval other than zero, an explicit
  \<open>reconnect()\<close> returns normally and schedules exactly one reconnect timer, whose
  fresh handle it keeps; this needs a transport instance in \<open>src/index.ts\<close> (closing
  a missing one throws before anything is scheduled) and \<open>canReconnect\<close> in
  \<open>src/src/Websocket.ts\<close>. With the interval at zero, neither an explicit
  \<open>reconnect()\<close> nor a transport \<open>close\<close> schedules a reconnect timer: the guard
  \<open>if (this.reconnectionInterval)\<close> stands in the one procedure both paths run.
\<close>

theorem reconnect_schedules_one_unless_interval_zero:
  "(reconnectionInterval c \<noteq> 0 \<and> (v = Index_ts \<longrightarrow> websocket c \<noteq> None) \<and>
    (v = Websocket_ts \<longrightarrow> canReconnect c) \<longrightarrow>
      fst (reconnect v c) = None \<and>
      (\<exists>h. next_timer c \<le> h \<and>
           reconnect_timers (snd (reconnect v c)) = reconnect_timers c @ [(h, ReconnectTimeout)] \<and>
           reconnectionTimeout (snd (reconnect v c)) = Some h)) \<and>
   (reconnectionInterval c = 0 \<longrightarrow>
      reconnect_timers (snd (reconnect v c)) = reconnect_timers c \<and>
      set (reconnect_timers (snd (step v parse WsClose c))) \<subseteq> set (reconnect_timers c))"
proof (intro conjI impI)
  assume a: "reconnectionInterval c \<noteq> 0 \<and> (v = Index_ts \<longrightarrow> websocket c \<noteq> None) \<and>
    (v = Websocket_ts \<longrightarrow> canReconnect c)"
  then obtain h c' where b: "reconnect_body v c = (None, c')" "next_timer c \<le> h"
      "reconnect_timers c' = reconnect_timers c @ [(h, ReconnectTimeout)]"
      "reconnectionTimeout c' = Some h"
    using reconnect_body_nonzero[of c v] by blast
  from a b(1) have r: "reconnect v c = (None, c')" by (cases v) (simp_all add: reconnect_def)
  show "fst (reconnect v c) = None" by (simp add: r)
  show "\<exists>h. next_timer c \<le> h \<and>
           reconnect_timers (snd (reconnect v c)) = reconnect_timers c @ [(h, ReconnectTimeout)] \<and>
           reconnectionTimeout (snd (reconnect v c)) = Some h"
    using b by (auto simp: r)
next
  assume z: "reconnectionInterval c = 0"
  show "reconnect_timers (snd (reconnect v c)) = reconnect_timers c"
    using reconnect_zero[OF z, of v "fst (reconnect v c)" "snd (reconnect v c)"] by simp
  show "set (reconnect_timers (snd (step v parse WsClose c))) \<subseteq> set (reconnect_timers c)"
    using on_close_zero[OF z, of v parse "fst (step v parse WsClose c)" "snd (step v parse WsClose c)"]
    by simp
qed

lemmas model_defs =
  run_def step_def connect_def createSocket_def dispatch_def dispatch0_def invoke_def invoke0_def
  RTC_EventEmitter_dispatch_def RTC_EventEmitter_on_def RTC_EventEmitter_once_def
  andThen_def RTC_Websocket_new_def onMessage_def onOpen_def new_listeners_def
  closeNativeWebsocketConnection_def set_readyState_def on_open_def on_close_def on_error_def
  on_message_def changeState_def startPingPong_def stopPingPong_def stopReconnectionTimeout_def
  schedule_def clearTimer_def setReconnectionInterval_def setAuthToken_def setPingPongInterval_def
  enableClientPing_def reconnect_def reconnect_body_def closeConnection_def close_def
  WebSocket_close_def WebSocket_send_def isOpened_def send_def sendToSystem_def try_send_def
  settle_def fire_def react_def splice_def joinRoom_def leaveRoom_def RTC_Room_new_def
  RTC_Room_joinRoom_def RTC_Room_leave_def RTC_Room_emitEvent_def room_subscribe_def
  router_def decode_info_def decode_meta_def reconnect_timers_def keepalive_timers_def
  system_receiver_def room_receiver_def no_receiver_def ping_def ping_payload_def
  pong_payload_def attachInfo_def

theorem reconnect_with_zero_interval_schedules_nothing:
  "reconnectionInterval
     (run Index_ts Some [Connect, WsOpen, SetReconnectionInterval 0] RTC_Websocket_new) = 0
   \<and> fst (reconnect Index_ts
        (run Index_ts Some [Connect, WsOpen, SetReconnectionInterval 0] RTC_Websocket_new)) = None
   \<and> reconnect_timers (snd (reconnect Index_ts
        (run Index_ts Some [Connect, WsOpen, SetReconnectionInterval 0] RTC_Websocket_new))) = []"
  by (simp add: model_defs)

theorem reconnect_schedules_one_unless_interval_zero_witness:
  "reconnectionInterval (run Websocket_ts Some [Connect, WsOpen] RTC_Websocket_new) = 5000
   \<and> canReconnect (run Websocket_ts Some [Connect, WsOpen] RTC_Websocket_new)
   \<and> length (reconnect_timers (snd (reconnect Websocket_ts
      (run Websocket_ts Some [Connect, WsOpen] RTC_Websocket_new)))) = 1
   \<and> reconnectionInterval
      (run Index_ts Some [Connect, WsOpen, SetReconnectionInterval 0] RTC_Websocket_new) = 0
   \<and> reconnect_timers (snd (step Index_ts Some WsClose
      (run Index_ts Some [Connect, WsOpen, SetReconnectionInterval 0] RTC_Websocket_new))) = []"
  using reconnect_schedules_one_unless_interval_zero
          [of "run Websocket_ts Some [Connect, WsOpen] RTC_Websocket_new" Websocket_ts Some]
        reconnect_schedules_one_unless_interval_zero
          [of "run Index_ts Some [Connect, WsOpen, SetReconnectionInterval 0] RTC_Websocket_new"
              Index_ts Some]
  by (simp add: model_defs)

subsection \<open>Reconnect timers over a run\<close>

lemma run_Nil [simp]: "run v parse [] c = c"
  by (simp add: run_def)

lemma run_Cons [simp]: "run v parse (i # ins) c = run v parse ins (snd (step v parse i c))"
  by (simp add: run_def)

lemma run_append: "run v parse (xs @ ys) c = run v parse ys (run v parse xs c)"
  by (simp add: run_def)

text \<open>One input starts at most one reconnect timer.\<close>

lemma step_adds_at_most_one_reconnect_timer:
  "length (reconnect_timers (snd (step v parse i c))) \<le> Suc (length (reconnect_timers c))"
proof -
  obtain e c' where s: "step v parse i c = (e, c')" by (cases "step v parse i c")
  have "length (reconnect_timers c') \<le> Suc (length (reconnect_timers c))"
  proof (cases "i = Reconnect")
    case True
    with s have "reconnect v c = (e, c')" by (simp add: step_def)
    from reconnect_cases[OF this] show ?thesis by auto
  next
    case nr: False
    show ?thesis
    proof (cases "i = WsClose \<and> willReconnect c")
      case False
      with s nr have "inert c c'" by (intro inert_step[OF s]) auto
      from inert_length[OF this] show ?thesis by simp
    next
      case True
      let ?c0 = "(stopPingPong (set_readyState CLOSED c))\<lparr>connectionState := ''close''\<rparr>"
      have "inert (stopPingPong (set_readyState CLOSED c)) ?c0"
        by (rule inertI) (simp_all add: reconnect_timers_def)
      moreover have "inert c (stopPingPong (set_readyState CLOSED c))"
        unfolding stopPingPong_def
        by (rule inert_trans[OF inert_set_readyState inert_clearTimer])
      ultimately have i0: "inert c ?c0" by (rule inert_trans[rotated])
      obtain e1 c1 where r: "reconnect v ?c0 = (e1, c1)" by (cases "reconnect v ?c0")
      have w: "willReconnect ?c0" using True by (simp add: stopPingPong_def clearTimer_def set_readyState_def)
      from s True w r have cs: "andThen (e1, c1) (dispatch v ''close'' None) = (e, c')"
        by (simp add: step_def on_close_def changeState_def Let_def)
      have l1: "length (reconnect_timers c1) \<le> Suc (length (reconnect_timers c))"
        using reconnect_cases[OF r] inert_length[OF i0] by auto
      show ?thesis
      proof (cases e1)
        case None
        with cs have "dispatch v ''close'' None c1 = (e, c')" by (simp add: andThen_def)
        from inert_length[OF inert_dispatch[OF this]] l1 show ?thesis by simp
      next
        case (Some x)
        with cs l1 show ?thesis by (simp add: andThen_def)
      qed
    qed
  qed
  with s show ?thesis by simp
qed

text \<open>
  Once \<open>willReconnect\<close> is off, no input but an explicit \<open>reconnect()\<close> switches it
  on again or starts a reconnect timer.
\<close>

lemma run_without_willReconnect:
  assumes "\<not> willReconnect c" and "Reconnect \<notin> set ins"
  shows "\<not> willReconnect (run v parse ins c) \<and>
         set (reconnect_timers (run v parse ins c)) \<subseteq> set (reconnect_timers c)"
  using assms
proof (induction ins arbitrary: c)
  case Nil
  then show ?case by simp
next
  case (Cons i ins)
  obtain e c' where s: "step v parse i c = (e, c')" by (cases "step v parse i c")
  have "inert c c'" using Cons.prems by (intro inert_step[OF s]) auto
  then have "\<not> willReconnect c'" "set (reconnect_timers c') \<subseteq> set (reconnect_timers c)"
    using Cons.prems(1) by (auto simp: inert_def)
  with Cons.IH[of c'] Cons.prems(2) s show ?case by auto
qed

text \<open>
  In \<open>src/src/Websocket.ts\<close>, once \<open>canReconnect\<close> is off no input at all switches it
  on again or starts a reconnect timer.
\<close>

lemma run_without_canReconnect:
  assumes "\<not> canReconnect c"
  shows "\<not> canReconnect (run Websocket_ts parse ins c) \<and>
         set (reconnect_timers (run Websocket_ts parse ins c)) \<subseteq> set (reconnect_timers c)"
  using assms
proof (induction ins arbitrary: c)
  case Nil
  then show ?case by simp
next
  case (Cons i ins)
  obtain e c' where s: "step Websocket_ts parse i c = (e, c')"
    by (cases "step Websocket_ts parse i c")
  have "inert c c'"
  proof (cases "i = Reconnect")
    case True
    with s Cons.prems have "c' = c" by (simp add: step_def reconnect_def)
    then show ?thesis by simp
  next
    case False
    with Cons.prems show ?thesis by (intro inert_step[OF s]) auto
  qed
  then have "\<not> canReconnect c'" "set (reconnect_timers c') \<subseteq> set (reconnect_timers c)"
    using Cons.prems(1) by (auto simp: inert_def)
  with Cons.IH[of c'] s show ?case by auto
qed

lemma close_switches_willReconnect_off: "\<not> willReconnect (snd (close v c))"
proof -
  obtain e c' where cl: "close v c = (e, c')" by (cases "close v c")
  let ?c1 = "c\<lparr>willReconnect := False\<rparr>"
  have "close v c = close v ?c1" by (simp add: close_def)
  with cl have "close v ?c1 = (e, c')" by simp
  from inert_close[OF this] have "\<not> willReconnect c'" by (simp add: inert_def)
  with cl show ?thesis by simp
qed

subsection \<open>Reconnect timers that outlive their handle\<close>

text \<open>
  C5. At most one reconnect timer should ever be live, the reconnection procedure
  cancelling a pending one before it schedules the next. \<open>reconnect()\<close> does not:
  it overwrites \<open>reconnectionTimeout\<close> without \<open>clearTimeout\<close>, and the \<open>close\<close>
  notification that its own \<open>closeConnection(true)\<close> provokes finds \<open>willReconnect\<close>
  set and calls \<open>reconnect()\<close> again. After \<open>connect()\<close>, the transport's \<open>open\<close>,
  one \<open>reconnect()\<close> and the transport's \<open>close\<close>, two reconnect timers are live in
  either file, and the handle names the second one only.
\<close>

theorem two_reconnect_timers_live:
  "reconnect_timers (run Index_ts Some [Connect, WsOpen, Reconnect, WsClose] RTC_Websocket_new)
     = [(1, ReconnectTimeout), (2, ReconnectTimeout)]
   \<and> reconnectionTimeout (run Index_ts Some [Connect, WsOpen, Reconnect, WsClose] RTC_Websocket_new)
     = Some 2
   \<and> reconnect_timers
       (run Websocket_ts Some [Connect, WsOpen, Reconnect, Fire 0, WsClose] RTC_Websocket_new)
     = [(1, ReconnectTimeout), (3, ReconnectTimeout)]
   \<and> reconnectionTimeout
       (run Websocket_ts Some [Connect, WsOpen, Reconnect, Fire 0, WsClose] RTC_Websocket_new)
     = Some 3"
  by (simp add: model_defs)

text \<open>
  C3. After an explicit \<open>close()\<close> no reconnect timer should fire. \<open>close()\<close> cancels
  the timer that \<open>reconnectionTimeout\<close> names and no other. In the state above it
  leaves the first timer live; when the host fires it, \<open>createSocket(true)\<close> runs:
  the connection is \<open>reconnecting\<close> on a new transport, after \<open>close()\<close>.
\<close>

theorem reconnect_timer_fires_after_close:
  "reconnect_timers
     (run Index_ts Some [Connect, WsOpen, Reconnect, WsClose, Close] RTC_Websocket_new)
     = [(1, ReconnectTimeout)]
   \<and> connectionState
     (run Index_ts Some [Connect, WsOpen, Reconnect, WsClose, Close, Fire 1] RTC_Websocket_new)
     = ''reconnecting''
   \<and> websocket
     (run Index_ts Some [Connect, WsOpen, Reconnect, WsClose, Close, Fire 1] RTC_Websocket_new)
     = Some \<lparr>readyState = CONNECTING, sent = []\<rparr>"
  by (simp add: model_defs)

text \<open>
  C4. On \<open>conn.rejected\<close> every pending reconnect timer should be cancelled and
  reconnection be over for good. The router switches \<open>canReconnect\<close> off and cancels
  the timer that \<open>reconnectionTimeout\<close> names. After two calls of \<open>reconnect()\<close>
  the first timer is live without a handle: it survives the rejection and, fired,
  runs \<open>createSocket(true)\<close>.
\<close>

theorem reconnect_timer_survives_rejection:
  "canReconnect
     (run Websocket_ts Some
        [Connect, WsOpen, Reconnect, Reconnect,
         WsMessage (Some \<lparr>ev_event = Some ''conn.rejected'', ev_time = 0,
            ev_data = Some (JObj [(''reason'', JStr ''banned'')]),
            ev_sender = Some \<lparr>sender_type = ''server'', sender_id = ''server'', sender_info = None\<rparr>,
            ev_receiver = Some system_receiver, ev_meta = None\<rparr>)]
        RTC_Websocket_new) = False
   \<and> reconnect_timers
     (run Websocket_ts Some
        [Connect, WsOpen, Reconnect, Reconnect,
         WsMessage (Some \<lparr>ev_event = Some ''conn.rejected'', ev_time = 0,
            ev_data = Some (JObj [(''reason'', JStr ''banned'')]),
            ev_sender = Some \<lparr>sender_type = ''server'', sender_id = ''server'', sender_info = None\<rparr>,
            ev_receiver = Some system_receiver, ev_meta = None\<rparr>)]
        RTC_Websocket_new) = [(1, ReconnectTimeout)]
   \<and> connectionState
     (run Websocket_ts Some
        [Connect, WsOpen, Reconnect, Reconnect,
         WsMessage (Some \<lparr>ev_event = Some ''conn.rejected'', ev_time = 0,
            ev_data = Some (JObj [(''reason'', JStr ''banned'')]),
            ev_sender = Some \<lparr>sender_type = ''server'', sender_id = ''server'', sender_info = None\<rparr>,
            ev_receiver = Some system_receiver, ev_meta = None\<rparr>),
         Fire 1]
        RTC_Websocket_new) = ''reconnecting''"
  by (simp add: model_defs)

subsection \<open>The reply to a ping\<close>

text \<open>
  C8, as amended. In \<open>src/src/Websocket.ts\<close>, for every decoded frame whose event
  name is \<open>ping\<close> the handler returns normally and makes exactly one
  \<open>send('pong', {message: 'pong'})\<close> to the system receiver. No listener of the
  application runs and no room is touched: the trace gains at most the
  settlement of the pong's own promise. When the connection state is \<open>open\<close> and
  the transport is open, exactly one pong frame is written to it, at once. When
  the state is not \<open>open\<close> nothing is written: the pong is queued as a one-shot
  \<open>open\<close> listener, behind those already queued.
\<close>

theorem ping_is_answered_with_one_pong:
  assumes "ev_event ev = Some ''ping''"
  shows "fst (on_message Websocket_ts parse (Some ev) c) = None
    \<and> rooms (snd (on_message Websocket_ts parse (Some ev) c)) = rooms c
    \<and> l_on (eventEmitter (snd (on_message Websocket_ts parse (Some ev) c))) = l_on (eventEmitter c)
    \<and> (trace (snd (on_message Websocket_ts parse (Some ev) c)) = trace c
        \<or> (\<exists>r. trace (snd (on_message Websocket_ts parse (Some ev) c))
                  = trace c @ [Settled (length (promises c)) r]))
    \<and> (\<forall>w. isOpened c \<and> websocket c = Some w \<and> readyState w = OPEN \<longrightarrow>
          websocket (snd (on_message Websocket_ts parse (Some ev) c))
            = Some (w\<lparr>sent := sent w @
                [\<lparr>f_event = ''pong'', f_data = JObj [(''message'', JStr ''pong'')],
                  f_receiver = \<lparr>receiver_type = Some ''system'', receiver_id = Some ''system''\<rparr>,
                  f_time = clock c\<rparr>]\<rparr>))
    \<and> (\<not> isOpened c \<longrightarrow>
          websocket (snd (on_message Websocket_ts parse (Some ev) c)) = websocket c
        \<and> l_once (eventEmitter (snd (on_message Websocket_ts parse (Some ev) c))) ''open''
            = Some ((case l_once (eventEmitter c) ''open'' of None \<Rightarrow> [] | Some ls \<Rightarrow> ls) @
                [QueuedSend (length (promises c))
                  \<lparr>f_event = ''pong'', f_data = JObj [(''message'', JStr ''pong'')],
                    f_receiver = \<lparr>receiver_type = Some ''system'', receiver_id = Some ''system''\<rparr>,
                    f_time = clock c\<rparr>]))"
  using assms
  by (auto simp: on_message_def sendToSystem_def send_def Let_def try_send_def settle_def
        WebSocket_send_def isOpened_def RTC_EventEmitter_once_def pong_payload_def
        system_receiver_def
        split: option.splits)

theorem ping_is_answered_with_one_pong_witness:
  "map_option sent (websocket (snd (on_message Websocket_ts Some
      (Some \<lparr>ev_event = Some ''ping'', ev_time = 0, ev_data = None, ev_sender = None,
             ev_receiver = Some system_receiver, ev_meta = None\<rparr>)
      (run Websocket_ts Some [Connect, WsOpen] RTC_Websocket_new))))
    = Some [\<lparr>f_event = ''pong'', f_data = JObj [(''message'', JStr ''pong'')],
              f_receiver = \<lparr>receiver_type = Some ''system'', receiver_id = Some ''system''\<rparr>,
              f_time = 0\<rparr>]
   \<and> isOpened (run Websocket_ts Some [Connect, WsOpen] RTC_Websocket_new)
   \<and> \<not> isOpened (run Websocket_ts Some [Connect] RTC_Websocket_new)
   \<and> websocket (snd (on_message Websocket_ts Some
      (Some \<lparr>ev_event = Some ''ping'', ev_time = 0, ev_data = None, ev_sender = None,
             ev_receiver = Some system_receiver, ev_meta = None\<rparr>)
      (run Websocket_ts Some [Connect] RTC_Websocket_new)))
    = Some \<lparr>readyState = CONNECTING, sent = []\<rparr>"
  using ping_is_answered_with_one_pong
          [of "\<lparr>ev_event = Some ''ping'', ev_time = 0, ev_data = None, ev_sender = None,
                ev_receiver = Some system_receiver, ev_meta = None\<rparr>"
              Some "run Websocket_ts Some [Connect, WsOpen] RTC_Websocket_new"]
        ping_is_answered_with_one_pong
          [of "\<lparr>ev_event = Some ''ping'', ev_time = 0, ev_data = None, ev_sender = None,
                ev_receiver = Some system_receiver, ev_meta = None\<rparr>"
              Some "run Websocket_ts Some [Connect] RTC_Websocket_new"]
  by (simp add: model_defs)

text \<open>
  The claim as stated fails while the state is not \<open>open\<close>: after \<open>reconnect()\<close> the
  state is \<open>internal_reconnection\<close> and the transport is still open (its close is
  deferred); a ping received then writes no pong, it queues one for the next \<open>open\<close>.
\<close>

theorem ping_while_not_open_writes_no_pong:
  "connectionState (run Websocket_ts Some [Connect, WsOpen, Reconnect] RTC_Websocket_new)
     = ''internal_reconnection''
   \<and> websocket (run Websocket_ts Some
        [Connect, WsOpen, Reconnect,
         WsMessage (Some \<lparr>ev_event = Some ''ping'', ev_time = 0, ev_data = None,
            ev_sender = None, ev_receiver = Some system_receiver, ev_meta = None\<rparr>)]
        RTC_Websocket_new)
     = Some \<lparr>readyState = OPEN, sent = []\<rparr>
   \<and> l_once (eventEmitter (run Websocket_ts Some
        [Connect, WsOpen, Reconnect,
         WsMessage (Some \<lparr>ev_event = Some ''ping'', ev_time = 0, ev_data = None,
            ev_sender = None, ev_receiver = Some system_receiver, ev_meta = None\<rparr>)]
        RTC_Websocket_new)) ''open''
     = Some [QueuedSend 0
          \<lparr>f_event = ''pong'', f_data = JObj [(''message'', JStr ''pong'')],
            f_receiver = \<lparr>receiver_type = Some ''system'', receiver_id = Some ''system''\<rparr>,
            f_time = 0\<rparr>]"
  by (simp add: model_defs)

subsection \<open>Routing to rooms\<close>

lemma forEach_room_listeners:
  "forEach (\<lambda>k c. (None, c\<lparr>trace := trace c @ [g k]\<rparr>)) ks c
     = (None, c\<lparr>trace := trace c @ map g ks\<rparr>)"
  by (induction ks arbitrary: c) simp_all

lemma RTC_Room_emitEvent_eq:
  assumes "i < length (rooms c)"
  shows "RTC_Room_emitEvent i name ev c
     = c\<lparr>rooms := (rooms c)[i := consume name (rooms c ! i)],
         trace := trace c @ room_calls i name ev (rooms c ! i)\<rparr>"
proof -
  let ?E = "room_eventEmitter (rooms c ! i)"
  have idem: "(rooms c)[i := (rooms c ! i)\<lparr>room_eventEmitter := ?E\<lparr>l_once := (l_once ?E)(name := None)\<rparr>\<rparr>]
              = rooms c" if "l_once ?E name = None"
  proof -
    have "(l_once ?E)(name := None) = l_once ?E" using that by (auto simp: fun_eq_iff)
    then show ?thesis by simp
  qed
  show ?thesis
    using assms idem
    by (cases "l_on ?E name"; cases "l_once ?E name")
       (simp_all add: RTC_Room_emitEvent_def RTC_EventEmitter_dispatch_def andThen_def
          forEach_room_listeners room_calls_def consume_def)
qed

lemma find_room_first:
  "find_room x rs = Some i \<Longrightarrow>
     i < length rs \<and> Some (room_name (rs ! i)) = x \<and> (\<forall>j<i. Some (room_name (rs ! j)) \<noteq> x)"
proof (induction rs arbitrary: i)
  case Nil
  then show ?case by simp
next
  case (Cons r rs)
  show ?case
  proof (cases "Some (room_name r) = x")
    case True
    with Cons.prems show ?thesis by simp
  next
    case False
    with Cons.prems obtain k where k: "find_room x rs = Some k" "i = Suc k" by auto
    from Cons.IH[OF k(1)] False k(2) show ?thesis
      by (auto simp: nth_Cons split: nat.splits)
  qed
qed

lemma find_room_none:
  "find_room x rs = None \<Longrightarrow> \<forall>r \<in> set rs. Some (room_name r) \<noteq> x"
  by (induction rs) (auto split: if_splits)


lemma rooms_invoke0: "invoke0 v name arg b l c = (e, c') \<Longrightarrow> rooms c' = rooms c"
  by (cases l)
     (auto simp: invoke0_def RTC_Room_joinRoom_def attachInfo_def send_def Let_def try_send_def
        settle_def split: option.splits sum.splits if_splits)

lemma rooms_dispatch0: "dispatch0 v name arg c = (e, c') \<Longrightarrow> rooms c' = rooms c"
  unfolding dispatch0_def
  by (erule dispatch_rel[where R="\<lambda>c c'. rooms c' = rooms c", rotated -1])
     (auto dest: rooms_invoke0)

text \<open>
  C9, as amended. Take an envelope that reaches the room routing of the router:
  its event name is not empty and, in \<open>src/src/Websocket.ts\<close>, is not
  \<open>conn.rejected\<close>; its receiver has type \<open>room\<close>; the listeners of \<open>event\<close> and of
  \<open>event.<name>\<close> have returned (leaving the state \<open>c2\<close>, with the registry as it
  was). Then the router returns normally. If no room of the registry has the
  receiver's id as its name, nothing more happens. Otherwise, with \<open>i\<close> the position
  of the first such room, that room's emitter is dispatched twice, under
  \<open>all_events\<close> and then under the envelope's own event name: the trace gains the
  calls of that room's listeners and of no other's, the one-shot entries of the two
  names are gone from that room, and every other room is as before.
\<close>

theorem room_event_reaches_first_matching_room:
  assumes "ev_event ev = Some name" and "name \<noteq> []"
    and "\<not> (v = Websocket_ts \<and> name = ''conn.rejected'')"
    and "ev_receiver ev = Some r" and "receiver_type r = Some ''room''"
    and "dispatch0 v ''event'' (Some ev) c = (None, c1)"
    and "dispatch0 v (''event.'' @ name) (Some ev) c1 = (None, c2)"
  shows "rooms c2 = rooms c \<and>
    (case find_room (receiver_id r) (rooms c) of
       None \<Rightarrow>
         router v ev c = (None, c2) \<and>
         (\<forall>room \<in> set (rooms c). Some (room_name room) \<noteq> receiver_id r)
     | Some i \<Rightarrow>
         router v ev c =
           (None, c2\<lparr>rooms := (rooms c)[i := consume name (consume ''all_events'' (rooms c ! i))],
                     trace := trace c2 @ room_calls i ''all_events'' ev (rooms c ! i) @
                              room_calls i name ev (consume ''all_events'' (rooms c ! i))\<rparr>) \<and>
         i < length (rooms c) \<and> Some (room_name (rooms c ! i)) = receiver_id r \<and>
         (\<forall>j<i. Some (room_name (rooms c ! j)) \<noteq> receiver_id r))"
proof -
  have rc: "rooms c2 = rooms c"
    using rooms_dispatch0[OF assms(6)] rooms_dispatch0[OF assms(7)] by simp
  show ?thesis
  proof (cases "find_room (receiver_id r) (rooms c)")
    case None
    with assms rc find_room_none[OF None] show ?thesis
      by (auto simp: router_def andThen_def)
  next
    case (Some i)
    note f = find_room_first[OF Some]
    let ?c3 = "RTC_Room_emitEvent i ''all_events'' ev c2"
    have e1: "?c3 = c2\<lparr>rooms := (rooms c)[i := consume ''all_events'' (rooms c ! i)],
                       trace := trace c2 @ room_calls i ''all_events'' ev (rooms c ! i)\<rparr>"
      using f rc by (simp add: RTC_Room_emitEvent_eq)
    have e2: "RTC_Room_emitEvent i name ev ?c3 =
        c2\<lparr>rooms := (rooms c)[i := consume name (consume ''all_events'' (rooms c ! i))],
           trace := trace c2 @ room_calls i ''all_events'' ev (rooms c ! i) @
                    room_calls i name ev (consume ''all_events'' (rooms c ! i))\<rparr>"
      unfolding e1 using f by (simp add: RTC_Room_emitEvent_eq)
    have "router v ev c = (None, RTC_Room_emitEvent i name ev ?c3)"
      using assms Some rc by (auto simp: router_def andThen_def)
    with e2 f rc Some show ?thesis by simp
  qed
qed


theorem room_event_reaches_first_matching_room_witness:
  "drop 3 (trace (snd (router Websocket_ts
      \<lparr>ev_event = Some ''chat'', ev_time = 0, ev_data = Some (JStr ''hi''),
        ev_sender = Some \<lparr>sender_type = ''user'', sender_id = ''u1'', sender_info = None\<rparr>,
        ev_receiver = Some \<lparr>receiver_type = Some ''room'', receiver_id = Some ''lobby''\<rparr>,
        ev_meta = None\<rparr>
      (run Websocket_ts Some
        [Connect, WsOpen, JoinRoom ''hall'', JoinRoom ''lobby'', JoinRoom ''lobby'',
         RoomOn 0 ''chat'' 4, RoomOn 1 ''all_events'' 5, RoomOnce 1 ''chat'' 6, RoomOn 2 ''chat'' 7]
        RTC_Websocket_new))))
    = [RoomInvoked 1 ''all_events'' 5
         \<lparr>ev_event = Some ''chat'', ev_time = 0, ev_data = Some (JStr ''hi''),
        ev_sender = Some \<lparr>sender_type = ''user'', sender_id = ''u1'', sender_info = None\<rparr>,
        ev_receiver = Some \<lparr>receiver_type = Some ''room'', receiver_id = Some ''lobby''\<rparr>,
        ev_meta = None\<rparr>,
       RoomInvoked 1 ''chat'' 6
         \<lparr>ev_event = Some ''chat'', ev_time = 0, ev_data = Some (JStr ''hi''),
        ev_sender = Some \<lparr>sender_type = ''user'', sender_id = ''u1'', sender_info = None\<rparr>,
        ev_receiver = Some \<lparr>receiver_type = Some ''room'', receiver_id = Some ''lobby''\<rparr>,
        ev_meta = None\<rparr>]"
  using room_event_reaches_first_matching_room
    [of "\<lparr>ev_event = Some ''chat'', ev_time = 0, ev_data = Some (JStr ''hi''),
        ev_sender = Some \<lparr>sender_type = ''user'', sender_id = ''u1'', sender_info = None\<rparr>,
        ev_receiver = Some \<lparr>receiver_type = Some ''room'', receiver_id = Some ''lobby''\<rparr>,
        ev_meta = None\<rparr>"
        "''chat''" Websocket_ts
        "\<lparr>receiver_type = Some ''room'', receiver_id = Some ''lobby''\<rparr>"
        "(run Websocket_ts Some
        [Connect, WsOpen, JoinRoom ''hall'', JoinRoom ''lobby'', JoinRoom ''lobby'',
         RoomOn 0 ''chat'' 4, RoomOn 1 ''all_events'' 5, RoomOnce 1 ''chat'' 6, RoomOn 2 ''chat'' 7]
        RTC_Websocket_new)"
        "(run Websocket_ts Some
        [Connect, WsOpen, JoinRoom ''hall'', JoinRoom ''lobby'', JoinRoom ''lobby'',
         RoomOn 0 ''chat'' 4, RoomOn 1 ''all_events'' 5, RoomOnce 1 ''chat'' 6, RoomOn 2 ''chat'' 7]
        RTC_Websocket_new)"
        "(run Websocket_ts Some
        [Connect, WsOpen, JoinRoom ''hall'', JoinRoom ''lobby'', JoinRoom ''lobby'',
         RoomOn 0 ''chat'' 4, RoomOn 1 ''all_events'' 5, RoomOnce 1 ''chat'' 6, RoomOn 2 ''chat'' 7]
        RTC_Websocket_new)"]
  by (simp add: model_defs room_calls_def consume_def)

text \<open>
  The claim as stated fails for envelopes that the router turns away before the
  room routing. With the room \<open>lobby\<close> joined and a listener on its \<open>all_events\<close>,
  an envelope addressed to the room \<open>lobby\<close> reaches no room listener when its event
  name is empty (either file: the guard \<open>if (event.event)\<close>) or is \<open>conn.rejected\<close>
  (\<open>src/src/Websocket.ts\<close>: the early \<open>return\<close>): the trace holds the settlement of
  the join's promise and nothing else.
\<close>

theorem room_event_turned_away_before_routing:
  "trace (run Index_ts Some
      [Connect, WsOpen, JoinRoom ''lobby'', RoomOn 0 ''all_events'' 5,
       WsMessage (Some \<lparr>ev_event = Some [], ev_time = 0, ev_data = Some (JStr ''hi''),
          ev_sender = Some \<lparr>sender_type = ''user'', sender_id = ''u1'', sender_info = None\<rparr>,
          ev_receiver = Some \<lparr>receiver_type = Some ''room'', receiver_id = Some ''lobby''\<rparr>,
          ev_meta = None\<rparr>)]
      RTC_Websocket_new) = [Settled 0 None]
   \<and> trace (run Websocket_ts Some
      [Connect, WsOpen, JoinRoom ''lobby'', RoomOn 0 ''all_events'' 5,
       WsMessage (Some \<lparr>ev_event = Some ''conn.rejected'', ev_time = 0,
          ev_data = Some (JObj [(''reason'', JStr ''banned'')]),
          ev_sender = Some \<lparr>sender_type = ''server'', sender_id = ''server'', sender_info = None\<rparr>,
          ev_receiver = Some \<lparr>receiver_type = Some ''room'', receiver_id = Some ''lobby''\<rparr>,
          ev_meta = None\<rparr>)]
      RTC_Websocket_new) = [Settled 0 None]"
  by (simp add: model_defs)

subsection \<open>Leaving a room\<close>

lemma RTC_Room_leave_eq:
  "RTC_Room_leave v room c =
     send (f_event (leave_frame v (room_name room) (clock c)))
          (f_data (leave_frame v (room_name room) (clock c)))
          (room_receiver (room_name room)) c"
  by (cases v) (simp_all add: RTC_Room_leave_def leave_frame_def)

text \<open>
  C7, as amended. For a room name present in the registry, with \<open>i\<close> the position
  of the first room of that name, \<open>leaveRoom(name)\<close> sends that room's leave
  envelope and registers one \<open>then\<close> callback holding \<open>i\<close>; the registry itself is
  not changed by the call. On an open connection whose transport is open the frame
  is written and the promise fulfilled at once, and the callback, run next,
  removes exactly that room. When the transport refuses the write, which it does
  while it is still connecting, the promise is rejected, the callback never runs
  and the room stays. Once the transport's closing handshake has started its
  \<open>send\<close> returns without writing: the promise is fulfilled and the callback removes
  the room. While the connection is not open the leave is queued and the promise
  pending, and the callback does nothing. Whenever the promise is fulfilled later and the registry is still as it
  was, the callback removes exactly that room.
\<close>

theorem leaveRoom_removes_room_once_fulfilled:
  assumes "find_room (Some name) (rooms c) = Some i"
  shows "i < length (rooms c) \<and> room_name (rooms c ! i) = name \<and>
         (\<forall>j<i. room_name (rooms c ! j) \<noteq> name)
    \<and> rooms (leaveRoom v name c) = rooms c
    \<and> reactions (leaveRoom v name c) = reactions c @ [(length (promises c), i)]
    \<and> (\<forall>w. isOpened c \<and> websocket c = Some w \<and> readyState w = OPEN \<longrightarrow>
          websocket (leaveRoom v name c)
            = Some (w\<lparr>sent := sent w @ [leave_frame v name (clock c)]\<rparr>)
        \<and> promises (leaveRoom v name c) ! length (promises c) = Fulfilled
        \<and> rooms (react (length (reactions c)) (leaveRoom v name c))
            = take i (rooms c) @ drop (Suc i) (rooms c))
    \<and> (\<forall>w. isOpened c \<and> websocket c = Some w \<and> readyState w = CONNECTING \<longrightarrow>
          websocket (leaveRoom v name c) = websocket c
        \<and> promises (leaveRoom v name c) ! length (promises c) = Rejected InvalidStateError
        \<and> rooms (react (length (reactions c)) (leaveRoom v name c)) = rooms c)
    \<and> (\<forall>w. isOpened c \<and> websocket c = Some w \<and>
             (readyState w = CLOSING \<or> readyState w = CLOSED) \<longrightarrow>
          websocket (leaveRoom v name c) = websocket c
        \<and> promises (leaveRoom v name c) ! length (promises c) = Fulfilled
        \<and> rooms (react (length (reactions c)) (leaveRoom v name c))
            = take i (rooms c) @ drop (Suc i) (rooms c))
    \<and> (\<not> isOpened c \<longrightarrow>
          websocket (leaveRoom v name c) = websocket c
        \<and> l_once (eventEmitter (leaveRoom v name c)) ''open''
            = Some ((case l_once (eventEmitter c) ''open'' of None \<Rightarrow> [] | Some ls \<Rightarrow> ls) @
                    [QueuedSend (length (promises c)) (leave_frame v name (clock c))])
        \<and> promises (leaveRoom v name c) ! length (promises c) = Pending
        \<and> react (length (reactions c)) (leaveRoom v name c) = leaveRoom v name c)
    \<and> (\<forall>s k. k < length (reactions s) \<and> reactions s ! k = (length (promises c), i) \<and>
             length (promises c) < length (promises s) \<and> rooms s = rooms c \<longrightarrow>
          (promises s ! length (promises c) = Fulfilled \<longrightarrow>
             rooms (react k s) = take i (rooms c) @ drop (Suc i) (rooms c))
        \<and> (\<forall>e. promises s ! length (promises c) = Rejected e \<longrightarrow> rooms (react k s) = rooms c)
        \<and> (promises s ! length (promises c) = Pending \<longrightarrow> react k s = s))"
proof -
  note f = find_room_first[OF assms]
  have n: "room_name (rooms c ! i) = name" using f by simp
  have lr: "leaveRoom v name c =
      (snd (send (f_event (leave_frame v name (clock c))) (f_data (leave_frame v name (clock c)))
              (room_receiver name) c))\<lparr>reactions := reactions
       (snd (send (f_event (leave_frame v name (clock c))) (f_data (leave_frame v name (clock c)))
              (room_receiver name) c)) @ [(length (promises c), i)]\<rparr>"
    using assms n by (simp add: leaveRoom_def RTC_Room_leave_eq send_def Let_def split: prod.splits)
  have fr: "\<lparr>f_event = f_event (leave_frame v name t), f_data = f_data (leave_frame v name t),
             f_receiver = room_receiver name, f_time = t\<rparr> = leave_frame v name t" for t
    by (cases v) (simp_all add: leave_frame_def)
  have p1: "i < length (rooms c) \<and> room_name (rooms c ! i) = name \<and>
         (\<forall>j<i. room_name (rooms c ! j) \<noteq> name)"
    using f by auto
  have p2: "rooms (leaveRoom v name c) = rooms c"
    unfolding lr by (simp add: send_def Let_def try_send_def settle_def
        split: option.splits sum.splits)
  have p3: "reactions (leaveRoom v name c) = reactions c @ [(length (promises c), i)]"
    unfolding lr by (simp add: send_def Let_def try_send_def settle_def
        split: option.splits sum.splits)
  have p4: "websocket (leaveRoom v name c)
            = Some (w\<lparr>sent := sent w @ [leave_frame v name (clock c)]\<rparr>)
        \<and> promises (leaveRoom v name c) ! length (promises c) = Fulfilled
        \<and> rooms (react (length (reactions c)) (leaveRoom v name c))
            = take i (rooms c) @ drop (Suc i) (rooms c)"
    if "isOpened c \<and> websocket c = Some w \<and> readyState w = OPEN" for w
    using that unfolding lr
    by (simp add: send_def Let_def try_send_def settle_def WebSocket_send_def isOpened_def fr
          react_def splice_def nth_append)
  have p5: "websocket (leaveRoom v name c) = websocket c
        \<and> promises (leaveRoom v name c) ! length (promises c) = Rejected InvalidStateError
        \<and> rooms (react (length (reactions c)) (leaveRoom v name c)) = rooms c"
    if "isOpened c \<and> websocket c = Some w \<and> readyState w = CONNECTING" for w
    using that unfolding lr
    by (simp add: send_def Let_def try_send_def settle_def WebSocket_send_def isOpened_def fr
          react_def splice_def nth_append)
  have p5': "websocket (leaveRoom v name c) = websocket c
        \<and> promises (leaveRoom v name c) ! length (promises c) = Fulfilled
        \<and> rooms (react (length (reactions c)) (leaveRoom v name c))
            = take i (rooms c) @ drop (Suc i) (rooms c)"
    if "isOpened c \<and> websocket c = Some w \<and> (readyState w = CLOSING \<or> readyState w = CLOSED)"
    for w
    using that unfolding lr
    by (auto simp add: send_def Let_def try_send_def settle_def WebSocket_send_def isOpened_def fr
          react_def splice_def nth_append)
  have p6: "websocket (leaveRoom v name c) = websocket c
        \<and> l_once (eventEmitter (leaveRoom v name c)) ''open''
            = Some ((case l_once (eventEmitter c) ''open'' of None \<Rightarrow> [] | Some ls \<Rightarrow> ls) @
                    [QueuedSend (length (promises c)) (leave_frame v name (clock c))])
        \<and> promises (leaveRoom v name c) ! length (promises c) = Pending
        \<and> react (length (reactions c)) (leaveRoom v name c) = leaveRoom v name c"
    if "\<not> isOpened c"
    using that unfolding lr
    by (simp add: send_def Let_def isOpened_def fr RTC_EventEmitter_once_def
          react_def nth_append)
  have p7: "(promises s ! length (promises c) = Fulfilled \<longrightarrow>
             rooms (react k s) = take i (rooms c) @ drop (Suc i) (rooms c))
        \<and> (\<forall>e. promises s ! length (promises c) = Rejected e \<longrightarrow> rooms (react k s) = rooms c)
        \<and> (promises s ! length (promises c) = Pending \<longrightarrow> react k s = s)"
    if "k < length (reactions s) \<and> reactions s ! k = (length (promises c), i) \<and>
             length (promises c) < length (promises s) \<and> rooms s = rooms c" for s k
    using that by (simp add: react_def splice_def)
  show ?thesis using p1 p2 p3 p4 p5 p5' p6 p7 by blast
qed


theorem leaveRoom_removes_room_once_fulfilled_witness:
  "find_room (Some ''b'')
     (rooms (run Websocket_ts Some [Connect, WsOpen, JoinRoom ''a'', JoinRoom ''b''] RTC_Websocket_new))
     = Some 1
   \<and> isOpened (run Websocket_ts Some [Connect, WsOpen, JoinRoom ''a'', JoinRoom ''b''] RTC_Websocket_new)
   \<and> map room_name (rooms (react 0 (leaveRoom Websocket_ts ''b''
       (run Websocket_ts Some [Connect, WsOpen, JoinRoom ''a'', JoinRoom ''b''] RTC_Websocket_new))))
     = [''a'']"
proof -
  have f: "find_room (Some ''b'')
     (rooms (run Websocket_ts Some [Connect, WsOpen, JoinRoom ''a'', JoinRoom ''b''] RTC_Websocket_new))
     = Some 1"
    by (simp add: model_defs)
  show ?thesis
    using f leaveRoom_removes_room_once_fulfilled[OF f, of Websocket_ts]
    by (simp add: model_defs)
qed

text \<open>
  The claim as stated fails when the send fails: \<open>then\<close> is given no rejection
  callback. \<open>createSocket\<close> leaves a transport that is still connecting unclosed (it
  only starts a poll) and gives every transport it creates the same handlers,
  closures over the connection. So after \<open>connect()\<close>, \<open>joinRoom('a')\<close> and a
  second \<open>connect()\<close>, the open of the first transport runs the open handler while
  \<open>this.websocket\<close> is the second transport, still connecting: the state becomes
  \<open>open\<close>, the join that waited for the open has its write refused, and so has the
  leave of \<open>leaveRoom('a')\<close>. Both promises are rejected, no callback is left
  pending, and the room is still in the registry. The open handler is applied to
  the state as the second \<open>connect()\<close> left it, since the first transport's
  notification does not touch the ready state of the second.
\<close>

theorem leaveRoom_keeps_room_when_send_fails:
  "find_room (Some ''a'')
       (rooms (snd (on_open Index_ts (run Index_ts Some [Connect, JoinRoom ''a'', Connect] RTC_Websocket_new))))
       = Some 0
   \<and> isOpened (snd (on_open Index_ts (run Index_ts Some [Connect, JoinRoom ''a'', Connect] RTC_Websocket_new)))
   \<and> websocket (snd (on_open Index_ts (run Index_ts Some [Connect, JoinRoom ''a'', Connect] RTC_Websocket_new)))
       = Some \<lparr>readyState = CONNECTING, sent = []\<rparr>
   \<and> map room_name (rooms (run Index_ts Some [LeaveRoom ''a'', React 0]
        (snd (on_open Index_ts (run Index_ts Some [Connect, JoinRoom ''a'', Connect] RTC_Websocket_new)))))
       = [''a'']
   \<and> promises (run Index_ts Some [LeaveRoom ''a'', React 0]
        (snd (on_open Index_ts (run Index_ts Some [Connect, JoinRoom ''a'', Connect] RTC_Websocket_new))))
       = [Rejected InvalidStateError, Rejected InvalidStateError]
   \<and> reactions (run Index_ts Some [LeaveRoom ''a'', React 0]
        (snd (on_open Index_ts (run Index_ts Some [Connect, JoinRoom ''a'', Connect] RTC_Websocket_new))))
       = []
   \<and> map room_name (rooms (run Websocket_ts Some [LeaveRoom ''a'', React 0]
        (snd (on_open Websocket_ts (run Websocket_ts Some [Connect, JoinRoom ''a'', Connect] RTC_Websocket_new)))))
       = [''a'']
   \<and> promises (run Websocket_ts Some [LeaveRoom ''a'', React 0]
        (snd (on_open Websocket_ts (run Websocket_ts Some [Connect, JoinRoom ''a'', Connect] RTC_Websocket_new))))
       = [Rejected InvalidStateError, Rejected InvalidStateError]
   \<and> reactions (run Websocket_ts Some [LeaveRoom ''a'', React 0]
        (snd (on_open Websocket_ts (run Websocket_ts Some [Connect, JoinRoom ''a'', Connect] RTC_Websocket_new))))
       = []"
  by (simp add: model_defs)

subsection \<open>Promises and the queue of sends\<close>

lemma settled_append [simp]: "settled (xs @ ys) = settled xs @ settled ys"
  by (induction xs rule: settled.induct) simp_all

lemma keep_refl [simp]: "keep c c"
  unfolding keep_def by auto

lemma keep_trans:
  assumes ab: "keep a b" and bc: "keep b c"
  shows "keep a c"
  unfolding keep_def
proof (intro impI)
  assume wa: "wf a"
  from ab wa have wb: "wf b" and l1: "length (promises a) \<le> length (promises b)"
    and p1: "\<forall>q < length (promises a). promises b ! q = promises a ! q"
    and q1: "\<exists>qs. queue b = queue a @ qs"
    and t1: "\<exists>t. trace b = trace a @ t \<and> (\<forall>q \<in> set (settled t). length (promises a) \<le> q)"
    unfolding keep_def by blast+
  from bc wb have wc: "wf c" and l2: "length (promises b) \<le> length (promises c)"
    and p2: "\<forall>q < length (promises b). promises c ! q = promises b ! q"
    and q2: "\<exists>qs. queue c = queue b @ qs"
    and t2: "\<exists>t. trace c = trace b @ t \<and> (\<forall>q \<in> set (settled t). length (promises b) \<le> q)"
    unfolding keep_def by blast+
  from q1 q2 have q: "\<exists>qs. queue c = queue a @ qs" by auto
  from t1 obtain u where u: "trace b = trace a @ u" "\<forall>q \<in> set (settled u). length (promises a) \<le> q"
    by blast
  from t2 obtain u' where u': "trace c = trace b @ u'" "\<forall>q \<in> set (settled u'). length (promises b) \<le> q"
    by blast
  have "trace c = trace a @ (u @ u') \<and> (\<forall>q \<in> set (settled (u @ u')). length (promises a) \<le> q)"
    using u u' l1 by (auto simp: settled_append)
  then have t: "\<exists>t. trace c = trace a @ t \<and> (\<forall>q \<in> set (settled t). length (promises a) \<le> q)"
    by blast
  from p1 p2 l1 have p: "\<forall>q < length (promises a). promises c ! q = promises a ! q" by auto
  show "wf c \<and> length (promises a) \<le> length (promises c) \<and>
        (\<forall>q < length (promises a). promises c ! q = promises a ! q) \<and>
        (\<exists>qs. queue c = queue a @ qs) \<and>
        (\<exists>t. trace c = trace a @ t \<and> (\<forall>q \<in> set (settled t). length (promises a) \<le> q))"
    using wc l1 l2 p q t by auto
qed

lemma keepI:
  "eventEmitter c' = eventEmitter c \<Longrightarrow> promises c' = promises c \<Longrightarrow> trace c' = trace c \<Longrightarrow>
   keep c c'"
  unfolding keep_def wf_def queue_def by auto

lemma wf_cong:
  "eventEmitter c' = eventEmitter c \<Longrightarrow> promises c' = promises c \<Longrightarrow> wf c' = wf c"
  unfolding wf_def queue_def by simp

text \<open>A send made while the state is not \<open>open\<close>: one pending promise, queued last.\<close>

lemma send_queued:
  assumes "\<not> isOpened c"
  shows "send event d r c =
     (length (promises c),
      c\<lparr>promises := promises c @ [Pending],
        eventEmitter := RTC_EventEmitter_once ''open''
          (QueuedSend (length (promises c))
             \<lparr>f_event = event, f_data = d, f_receiver = r, f_time = clock c\<rparr>)
          (eventEmitter c)\<rparr>)"
  using assms by (simp add: send_def Let_def isOpened_def)

lemma queue_once:
  "queue (c\<lparr>promises := ps, eventEmitter := RTC_EventEmitter_once ''open'' l (eventEmitter c)\<rparr>)
     = queue c @ [l]"
  by (simp add: queue_def RTC_EventEmitter_once_def split: option.splits)

lemma wf_queue_ids: "wf c \<Longrightarrow> l \<in> set (queue c) \<Longrightarrow> qid l < length (promises c)"
  unfolding wf_def by force

lemma keep_send: "keep c (snd (send event d r c))"
proof (cases "isOpened c")
  case False
  let ?f = "\<lparr>f_event = event, f_data = d, f_receiver = r, f_time = clock c\<rparr>"
  let ?c' = "c\<lparr>promises := promises c @ [Pending],
        eventEmitter := RTC_EventEmitter_once ''open''
          (QueuedSend (length (promises c)) ?f) (eventEmitter c)\<rparr>"
  have q: "queue ?c' = queue c @ [QueuedSend (length (promises c)) ?f]" by (rule queue_once)
  have "wf ?c'" if w: "wf c"
  proof -
    have a: "\<forall>name ls. l_on (eventEmitter ?c') name = Some ls \<longrightarrow>
        (\<forall>l \<in> set ls. persistent_listener name l)"
      using w by (simp add: wf_def RTC_EventEmitter_once_def)
    have b: "\<forall>name ls. l_once (eventEmitter ?c') name = Some ls \<longrightarrow> name = ''open''"
      using w by (auto simp: wf_def RTC_EventEmitter_once_def)
    have c: "\<forall>l \<in> set (queue ?c'). \<exists>p f. l = QueuedSend p f \<and> p < length (promises ?c') \<and>
        promises ?c' ! p = Pending"
      unfolding q using w by (auto simp: wf_def nth_append) (metis less_Suc_eq)
    have d: "distinct (map qid (queue ?c'))"
      unfolding q using w wf_queue_ids[OF w] by (auto simp: wf_def)
    show ?thesis unfolding wf_def using a b c d by blast
  qed
  moreover have "\<exists>qs. queue ?c' = queue c @ qs" using q by blast
  ultimately have "keep c ?c'" unfolding keep_def by (auto simp: nth_append)
  with False show ?thesis by (simp add: send_queued)
next
  case True
  let ?f = "\<lparr>f_event = event, f_data = d, f_receiver = r, f_time = clock c\<rparr>"
  let ?p = "length (promises c)"
  let ?c1 = "c\<lparr>promises := promises c @ [Pending]\<rparr>"
  have s: "snd (send event d r c) = try_send ?p ?f ?c1"
    using True by (simp add: send_def Let_def isOpened_def)
  have "\<exists>w' st r. try_send ?p ?f ?c1 =
      ?c1\<lparr>websocket := w', promises := promises c @ [st], trace := trace c @ [Settled ?p r]\<rparr> \<and>
      st \<noteq> Pending"
  proof (cases "websocket c")
    case None
    then show ?thesis
      by (intro exI[of _ None] exI[of _ "Rejected TypeError"] exI[of _ "Some TypeError"])
         (simp add: try_send_def settle_def)
  next
    case (Some w)
    show ?thesis
    proof (cases "readyState w = OPEN")
      case True
      with Some show ?thesis
        by (intro exI[of _ "Some (w\<lparr>sent := sent w @ [?f]\<rparr>)"] exI[of _ Fulfilled] exI[of _ None])
           (simp add: try_send_def settle_def WebSocket_send_def)
    next
      case False
      show ?thesis
      proof (cases "readyState w = CONNECTING")
        case True
        with Some show ?thesis
          by (intro exI[of _ "Some w"] exI[of _ "Rejected InvalidStateError"]
                exI[of _ "Some InvalidStateError"])
             (simp add: try_send_def settle_def WebSocket_send_def)
      next
        case closing: False
        with False Some show ?thesis
          by (intro exI[of _ "Some w"] exI[of _ Fulfilled] exI[of _ None])
             (simp add: try_send_def settle_def WebSocket_send_def)
      qed
    qed
  qed
  then obtain w' st r where t: "try_send ?p ?f ?c1 =
      ?c1\<lparr>websocket := w', promises := promises c @ [st], trace := trace c @ [Settled ?p r]\<rparr>"
      "st \<noteq> Pending"
    by blast
  let ?c' = "try_send ?p ?f ?c1"
  have q: "queue ?c' = queue c" using t by (simp add: queue_def)
  have "wf ?c'" if w: "wf c"
  proof -
    have "\<forall>l \<in> set (queue c). \<exists>p f. l = QueuedSend p f \<and> p < length (promises ?c') \<and>
        promises ?c' ! p = Pending"
      using w t by (auto simp: wf_def nth_append) (metis less_Suc_eq)
    then show ?thesis using w q t unfolding wf_def by simp
  qed
  then have "keep c ?c'" unfolding keep_def using q t by (auto simp: nth_append)
  with s show ?thesis by simp
qed


lemma forEach_rel_mem:
  assumes refl: "\<And>s. R s s"
    and trans: "\<And>a b c. R a b \<Longrightarrow> R b c \<Longrightarrow> R a c"
  shows "(\<And>l s e s'. l \<in> set ls \<Longrightarrow> f l s = (e, s') \<Longrightarrow> R s s') \<Longrightarrow>
         forEach f ls s = (e, s') \<Longrightarrow> R s s'"
proof (induction ls arbitrary: s)
  case Nil
  then show ?case by (simp add: refl)
next
  case (Cons l ls)
  obtain e1 s1 where f: "f l s = (e1, s1)" by (cases "f l s")
  have r1: "R s s1" by (rule Cons.prems(1)[OF _ f]) simp
  show ?case
  proof (cases e1)
    case None
    with Cons.prems(2) f have fe: "forEach f ls s1 = (e, s')" by simp
    have "R s1 s'"
      by (rule Cons.IH[OF _ fe]) (rule Cons.prems(1), simp_all)
    with r1 show ?thesis by (rule trans)
  next
    case (Some x)
    with Cons.prems(2) f have "s' = s1" by simp
    with r1 show ?thesis by simp
  qed
qed

lemma keep_trace: "settled t = [] \<Longrightarrow> keep c (c\<lparr>trace := trace c @ t\<rparr>)"
  unfolding keep_def wf_def queue_def by auto

lemma keep_sendToSystem: "keep c (snd (sendToSystem e d c))"
  by (simp add: sendToSystem_def keep_send)

lemma keep_attachInfo: "keep c (attachInfo info c)"
  by (simp add: attachInfo_def keep_send)

lemma keep_RTC_Room_joinRoom: "keep c (RTC_Room_joinRoom v name c)"
  by (simp add: RTC_Room_joinRoom_def keep_send)

lemma keep_RTC_Room_leave: "keep c (snd (RTC_Room_leave v room c))"
  by (cases v) (simp_all add: RTC_Room_leave_def keep_send)

lemma keep_clearTimer: "keep c (clearTimer h c)"
  by (rule keepI) (simp_all add: clearTimer_def)

lemma keep_schedule: "keep c (snd (schedule t c))"
  by (rule keepI) (simp_all add: schedule_def)

lemma keep_RTC_Room_emitEvent: "keep c (RTC_Room_emitEvent i name ev c)"
proof -
  obtain e c' where d: "RTC_EventEmitter_dispatch
            (\<lambda>c. room_eventEmitter (rooms c ! i))
            (\<lambda>L c. c\<lparr>rooms := (rooms c)[i := (rooms c ! i)\<lparr>room_eventEmitter := L\<rparr>]\<rparr>)
            (\<lambda>spread k c. (None, c\<lparr>trace := trace c @ [RoomInvoked i name k ev]\<rparr>))
            name c = (e, c')"
    by (cases "RTC_EventEmitter_dispatch
            (\<lambda>c. room_eventEmitter (rooms c ! i))
            (\<lambda>L c. c\<lparr>rooms := (rooms c)[i := (rooms c ! i)\<lparr>room_eventEmitter := L\<rparr>]\<rparr>)
            (\<lambda>spread k c. (None, c\<lparr>trace := trace c @ [RoomInvoked i name k ev]\<rparr>))
            name c")
  have "keep c c'"
    by (rule dispatch_rel[OF _ _ _ _ d, where R=keep])
       (auto simp: keepI keep_trace intro: keep_trans)
  with d show ?thesis by (simp add: RTC_Room_emitEvent_def)
qed

lemma keep_invoke0:
  "persistent_listener name l \<Longrightarrow> invoke0 v name arg b l c = (e, c') \<Longrightarrow> keep c c'"
  by (cases l)
     (auto simp: invoke0_def persistent_listener_def keep_trace keep_RTC_Room_joinRoom
        keep_attachInfo)

text \<open>
  A dispatch under any name but \<open>open\<close> runs persistent listeners only: no
  one-shot listener is registered under another name.
\<close>

lemma keep_dispatch_gen:
  assumes call: "\<And>b l s e s'. persistent_listener name l \<Longrightarrow> call b l s = (e, s') \<Longrightarrow> keep s s'"
    and name: "name \<noteq> ''open''"
    and d: "RTC_EventEmitter_dispatch eventEmitter (\<lambda>L c. c\<lparr>eventEmitter := L\<rparr>) call name c
              = (e, c')"
  shows "keep c c'"
proof (cases "wf c")
  case False
  then show ?thesis by (simp add: keep_def)
next
  case w: True
  obtain e1 c1 where p1: "(case l_on (eventEmitter c) name of None \<Rightarrow> (None, c)
        | Some ls \<Rightarrow> forEach (call True) ls c) = (e1, c1)"
    by (cases "(case l_on (eventEmitter c) name of None \<Rightarrow> (None, c)
        | Some ls \<Rightarrow> forEach (call True) ls c)")
  have k1: "keep c c1"
  proof (cases "l_on (eventEmitter c) name")
    case None
    with p1 show ?thesis by simp
  next
    case (Some ls)
    with w have pl: "\<forall>l \<in> set ls. persistent_listener name l" by (auto simp: wf_def)
    from p1 Some have fe: "forEach (call True) ls c = (e1, c1)" by simp
    show ?thesis
    proof (rule forEach_rel_mem[where R=keep and f="call True", OF keep_refl keep_trans _ fe])
      fix l s e s'
      assume "l \<in> set ls" and "call True l s = (e, s')"
      with pl show "keep s s'" by (auto intro: call)
    qed
  qed
  then have w1: "wf c1" using w by (simp add: keep_def)
  then have "l_once (eventEmitter c1) name = None" using name unfolding wf_def
    by (cases "l_once (eventEmitter c1) name") auto
  with d p1 have "c' = c1"
    by (cases e1) (simp_all add: RTC_EventEmitter_dispatch_def andThen_def)
  with k1 show ?thesis by simp
qed

lemma keep_dispatch0:
  "name \<noteq> ''open'' \<Longrightarrow> dispatch0 v name arg c = (e, c') \<Longrightarrow> keep c c'"
  unfolding dispatch0_def by (erule keep_dispatch_gen[rotated]) (auto dest: keep_invoke0)

lemma keep_reject:
  "keep c ((stopReconnectionTimeout (stopPingPong c))\<lparr>canReconnect := False\<rparr>)"
  by (rule keepI) (simp_all add: stopReconnectionTimeout_def stopPingPong_def clearTimer_def)

lemma keep_router: "router v ev c = (e, c') \<Longrightarrow> keep c c'"
proof -
  assume r: "router v ev c = (e, c')"
  show ?thesis
  proof (cases "ev_event ev")
    case None
    with r show ?thesis by (simp add: router_def)
  next
    case (Some name)
    show ?thesis
    proof (cases "name = []")
      case True
      with r Some show ?thesis by (simp add: router_def)
    next
      case False
      obtain e1 c1 where d1: "dispatch0 v ''event'' (Some ev) c = (e1, c1)"
        by (cases "dispatch0 v ''event'' (Some ev) c")
      obtain e2 c2 where d2: "dispatch0 v (''event.'' @ name) (Some ev) c1 = (e2, c2)"
        by (cases "dispatch0 v (''event.'' @ name) (Some ev) c1")
      have q1: "keep c c1" by (rule keep_dispatch0[OF _ d1]) simp
      have q2: "keep c1 c2" by (rule keep_dispatch0[OF _ d2]) simp
      have q12: "keep c c2" by (rule keep_trans[OF q1 q2])
      show ?thesis
      proof (cases e1)
        case s1: (Some x)
        with r Some False d1 have "c' = c1" by (simp add: router_def andThen_def)
        with q1 show ?thesis by simp
      next
        case n1: None
        show ?thesis
        proof (cases e2)
          case s2: (Some x)
          with r Some False d1 d2 n1 have "c' = c2" by (simp add: router_def andThen_def)
          with q12 show ?thesis by simp
        next
          case n2: None
          have "keep c2 c'"
            using r Some False d1 d2 n1 n2
            by (auto simp: router_def andThen_def Let_def
                  split: option.splits if_splits
                  intro: keep_reject keep_RTC_Room_emitEvent
                         keep_trans[OF keep_RTC_Room_emitEvent keep_RTC_Room_emitEvent])
          with q12 show ?thesis by (rule keep_trans)
        qed
      qed
    qed
  qed
qed

lemma keep_invoke:
  "persistent_listener name l \<Longrightarrow> invoke v name arg b l c = (e, c') \<Longrightarrow> keep c c'"
  by (cases l)
     (auto simp: invoke_def split: if_splits option.splits
           dest: keep_router keep_invoke0)

lemma keep_dispatch:
  "name \<noteq> ''open'' \<Longrightarrow> dispatch v name arg c = (e, c') \<Longrightarrow> keep c c'"
  unfolding dispatch_def by (erule keep_dispatch_gen[rotated]) (auto dest: keep_invoke)


lemma keep_closeConnection: "closeConnection v b c = (e, c') \<Longrightarrow> keep c c'"
proof -
  assume cc: "closeConnection v b c = (e, c')"
  let ?c1 = "(if b then c\<lparr>willReconnect := True, connectionState := ''internal_reconnection''\<rparr>
              else c)"
  have k1: "keep c ?c1" by (auto intro: keepI)
  have "keep ?c1 c'"
  proof (cases v)
    case Index_ts
    with cc show ?thesis
      by (auto simp: closeConnection_def Let_def split: option.splits if_splits intro!: keepI)
  next
    case Websocket_ts
    let ?c2 = "(if isOpened ?c1
                then snd (sendToSystem ''conn_close'' (JObj [(''reason'', JStr ''general'')]) ?c1)
                else ?c1)"
    from cc Websocket_ts have c': "c' = snd (schedule ImmediateWsClose ?c2)"
      by (simp add: closeConnection_def Let_def)
    have "keep ?c1 ?c2" by (simp add: keep_sendToSystem)
    then show ?thesis unfolding c' by (rule keep_trans) (rule keep_schedule)
  qed
  with k1 show ?thesis by (rule keep_trans)
qed

lemma keep_reconnect_body: "reconnect_body v c = (e, c') \<Longrightarrow> keep c c'"
proof -
  assume r: "reconnect_body v c = (e, c')"
  obtain e1 c1 where cc: "closeConnection v True c = (e1, c1)"
    by (cases "closeConnection v True c")
  have k1: "keep c c1" by (rule keep_closeConnection[OF cc])
  have "keep c1 c'"
    using r cc
    by (cases e1)
       (auto simp: reconnect_body_def andThen_def schedule_def split: if_splits intro!: keepI)
  with k1 show ?thesis by (rule keep_trans)
qed

lemma keep_reconnect: "reconnect v c = (e, c') \<Longrightarrow> keep c c'"
  by (cases v) (auto simp: reconnect_def split: if_splits dest: keep_reconnect_body)

lemma keep_changeState:
  assumes "name \<noteq> ''open''" and "changeState v name c = (e, c')"
  shows "keep c c'"
proof -
  let ?c1 = "c\<lparr>connectionState := name\<rparr>"
  have k1: "keep c ?c1" by (rule keepI) simp_all
  obtain e2 c2 where r: "(if ''close'' = name \<and> willReconnect ?c1 then reconnect v ?c1
                          else (None, ?c1)) = (e2, c2)"
    by (cases "(if ''close'' = name \<and> willReconnect ?c1 then reconnect v ?c1 else (None, ?c1))")
  have k2: "keep ?c1 c2"
    using r by (cases "''close'' = name \<and> willReconnect ?c1") (auto dest: keep_reconnect)
  have cs: "andThen (e2, c2) (dispatch v name None) = (e, c')"
    using assms(2) unfolding changeState_def Let_def r .
  have "keep c2 c'"
    using cs assms(1) by (cases e2) (auto simp: andThen_def dest: keep_dispatch)
  with k1 k2 show ?thesis by (blast intro: keep_trans)
qed

lemma keep_closeNativeWebsocketConnection: "keep c (closeNativeWebsocketConnection c)"
  by (auto simp: closeNativeWebsocketConnection_def Let_def schedule_def
           split: option.splits intro!: keepI)

lemma keep_createSocket: "createSocket v b c = (e, c') \<Longrightarrow> keep c c'"
proof -
  assume cs: "createSocket v b c = (e, c')"
  let ?n = "(if b then ''reconnecting'' else ''connecting'')"
  let ?c0 = "c\<lparr>connectionState := ?n\<rparr>"
  obtain e1 c1 where d: "dispatch v ?n None ?c0 = (e1, c1)"
    by (cases "dispatch v ?n None ?c0")
  have k0: "keep c ?c0" by (rule keepI) simp_all
  have k1: "keep ?c0 c1" by (rule keep_dispatch[OF _ d]) simp
  have "keep c1 c'"
  proof (cases e1)
    case (Some x)
    with cs d show ?thesis by (auto simp: createSocket_def andThen_def split: if_splits)
  next
    case None
    with cs d have c': "c' = (closeNativeWebsocketConnection c1)
                       \<lparr>websocket := Some \<lparr>readyState = CONNECTING, sent = []\<rparr>\<rparr>"
      by (auto simp: createSocket_def andThen_def split: if_splits)
    have "keep (closeNativeWebsocketConnection c1) c'"
      unfolding c' by (rule keepI) simp_all
    with keep_closeNativeWebsocketConnection[of c1] show ?thesis by (rule keep_trans)
  qed
  with k0 k1 show ?thesis by (blast intro: keep_trans)
qed

lemma keep_fold_leave:
  "keep c (fold (\<lambda>room c. snd (RTC_Room_leave v room c)) rs c)"
proof (induction rs arbitrary: c)
  case Nil
  show ?case by simp
next
  case (Cons r rs)
  have "keep c (snd (RTC_Room_leave v r c))" by (rule keep_RTC_Room_leave)
  with Cons.IH[of "snd (RTC_Room_leave v r c)"] show ?case
    by (auto intro: keep_trans)
qed

lemma keep_close: "close v c = (e, c') \<Longrightarrow> keep c c'"
proof (cases v)
  case Index_ts
  assume cl: "close v c = (e, c')"
  let ?c1 = "c\<lparr>willReconnect := False\<rparr>"
  have k1: "keep c ?c1" by (rule keepI) simp_all
  obtain e2 c2 where cc: "closeConnection v False ?c1 = (e2, c2)"
    by (cases "closeConnection v False ?c1")
  have k2: "keep ?c1 c2" by (rule keep_closeConnection[OF cc])
  have "keep c2 c'"
  proof (cases e2)
    case (Some x)
    with cl cc Index_ts show ?thesis by (simp add: close_def Let_def andThen_def)
  next
    case None
    with cl cc Index_ts
    have d: "dispatch v ''custom.disconnect'' None (stopPingPong (stopReconnectionTimeout c2)) = (e, c')"
      by (simp add: close_def Let_def andThen_def)
    have "keep c2 (stopPingPong (stopReconnectionTimeout c2))"
      by (rule keepI) (simp_all add: stopPingPong_def stopReconnectionTimeout_def clearTimer_def)
    moreover have "keep (stopPingPong (stopReconnectionTimeout c2)) c'"
      by (rule keep_dispatch[OF _ d]) simp
    ultimately show ?thesis by (rule keep_trans)
  qed
  with k1 k2 show ?thesis by (blast intro: keep_trans)
next
  case Websocket_ts
  assume cl: "close v c = (e, c')"
  let ?c1 = "c\<lparr>willReconnect := False\<rparr>"
  let ?c2 = "stopReconnectionTimeout (stopPingPong ?c1)"
  let ?c3 = "fold (\<lambda>room c. snd (RTC_Room_leave v room c)) (rooms ?c2) ?c2"
  from cl Websocket_ts have c': "c' = snd (schedule ImmediateDisconnect ?c3)"
    by (simp add: close_def Let_def)
  have "keep c ?c2"
    by (rule keepI) (simp_all add: stopPingPong_def stopReconnectionTimeout_def clearTimer_def)
  moreover have "keep ?c2 ?c3" by (rule keep_fold_leave)
  moreover have "keep ?c3 c'" unfolding c' by (rule keep_schedule)
  ultimately show ?thesis by (blast intro: keep_trans)
qed

lemma keep_ping: "keep c (ping v c)"
  by (cases v) (simp_all add: ping_def keep_send keep_sendToSystem)

lemma keep_on_message: "on_message v parse m c = (e, c') \<Longrightarrow> keep c c'"
  by (auto simp: on_message_def split: option.splits if_splits sum.splits
           dest!: keep_dispatch[rotated] intro: keep_sendToSystem)

lemma keep_on_close: "on_close v c = (e, c') \<Longrightarrow> keep c c'"
proof -
  assume "on_close v c = (e, c')"
  then have "keep (stopPingPong c) c'"
    unfolding on_close_def by (intro keep_changeState) simp_all
  moreover have "keep c (stopPingPong c)" unfolding stopPingPong_def by (rule keep_clearTimer)
  ultimately show ?thesis by (rule keep_trans[rotated])
qed

lemma keep_on_error: "on_error v c = (e, c') \<Longrightarrow> keep c c'"
  unfolding on_error_def by (intro keep_changeState) simp_all

lemma keep_fire: "fire v h c = (e, c') \<Longrightarrow> keep c c'"
proof -
  assume f: "fire v h c = (e, c')"
  show ?thesis
  proof (cases "map_of (timers c) h")
    case None
    with f show ?thesis by (simp add: fire_def)
  next
    case (Some t)
    show ?thesis
    proof (cases t)
      case ReconnectTimeout
      with f Some have "createSocket v True (clearTimer (Some h) c) = (e, c')"
        by (simp add: fire_def)
      from keep_createSocket[OF this] keep_clearTimer[of c "Some h"] show ?thesis
        by (blast intro: keep_trans)
    next
      case PingPongInterval
      with f Some show ?thesis by (auto simp: fire_def keep_ping)
    next
      case ClosePollInterval
      with f Some show ?thesis
        by (auto simp: fire_def clearTimer_def split: option.splits if_splits intro!: keepI)
    next
      case ImmediateWsClose
      with f Some show ?thesis
        by (auto simp: fire_def Let_def clearTimer_def split: option.splits if_splits intro!: keepI)
    next
      case ImmediateDisconnect
      obtain e1 c1 where cc: "closeConnection v False (clearTimer (Some h) c) = (e1, c1)"
        by (cases "closeConnection v False (clearTimer (Some h) c)")
      have k1: "keep c c1"
        using keep_closeConnection[OF cc] keep_clearTimer[of c "Some h"]
        by (blast intro: keep_trans)
      have "keep c1 c'"
        using f Some ImmediateDisconnect cc
        by (cases e1) (auto simp: fire_def andThen_def dest!: keep_dispatch[rotated])
      with k1 show ?thesis by (rule keep_trans)
    qed
  qed
qed

lemma wf_on:
  assumes "wf c" and "persistent_listener name l"
  shows "wf (c\<lparr>eventEmitter := RTC_EventEmitter_on name l (eventEmitter c)\<rparr>)"
proof -
  let ?E = "RTC_EventEmitter_on name l (eventEmitter c)"
  have a: "\<forall>n ls. l_on ?E n = Some ls \<longrightarrow> (\<forall>x \<in> set ls. persistent_listener n x)"
  proof (intro allI impI ballI)
    fix n ls x
    assume ls: "l_on ?E n = Some ls" and x: "x \<in> set ls"
    show "persistent_listener n x"
    proof (cases "n = name")
      case True
      with ls have "ls = (case l_on (eventEmitter c) name of None \<Rightarrow> [] | Some ls \<Rightarrow> ls) @ [l]"
        by (simp add: RTC_EventEmitter_on_def)
      with x assms True show ?thesis
        by (cases "l_on (eventEmitter c) name") (auto simp: wf_def)
    next
      case False
      with ls have "l_on (eventEmitter c) n = Some ls" by (simp add: RTC_EventEmitter_on_def)
      with x assms(1) show ?thesis by (auto simp: wf_def)
    qed
  qed
  have b: "l_once ?E = l_once (eventEmitter c)" by (simp add: RTC_EventEmitter_on_def)
  show ?thesis
    using assms(1) a unfolding wf_def queue_def by (simp add: b)
qed

lemma keep_on:
  "persistent_listener name l \<Longrightarrow>
   keep c (c\<lparr>eventEmitter := RTC_EventEmitter_on name l (eventEmitter c)\<rparr>)"
  unfolding keep_def using wf_on[of c name l]
  by (auto simp: queue_def RTC_EventEmitter_on_def)

lemma keep_joinRoom: "keep c (joinRoom v name c)"
proof -
  have "keep c (snd (RTC_Room_new v name c))"
    by (auto simp: RTC_Room_new_def onOpen_def persistent_listener_def
             intro: keep_RTC_Room_joinRoom keep_on)
  moreover have "keep c1 (c1\<lparr>rooms := r\<rparr>)" for c1 r
    by (rule keepI) simp_all
  ultimately show ?thesis
    by (auto simp: joinRoom_def split: prod.splits intro: keep_trans)
qed

lemma keep_leaveRoom: "keep c (leaveRoom v name c)"
proof (cases "find_room (Some name) (rooms c)")
  case None
  then show ?thesis by (simp add: leaveRoom_def)
next
  case (Some i)
  obtain p c1 where l: "RTC_Room_leave v (rooms c ! i) c = (p, c1)"
    by (cases "RTC_Room_leave v (rooms c ! i) c")
  have "keep c c1" using keep_RTC_Room_leave[of c v "rooms c ! i"] l by simp
  moreover have "keep c1 (c1\<lparr>reactions := reactions c1 @ [(p, i)]\<rparr>)"
    by (rule keepI) simp_all
  ultimately show ?thesis using Some l by (auto simp: leaveRoom_def intro: keep_trans)
qed

lemma keep_react: "keep c (react k c)"
  by (auto simp: react_def split: prod.splits pstate.splits intro!: keepI)

lemma keep_setPingPongInterval: "keep c (setPingPongInterval v ms c)"
  by (cases v)
     (auto simp: setPingPongInterval_def Let_def stopPingPong_def startPingPong_def
        clearTimer_def schedule_def intro!: keepI)

lemma keep_room_subscribe: "keep c (room_subscribe b i name k c)"
  by (auto simp: room_subscribe_def intro!: keepI)

text \<open>
  Every input but the transport's \<open>open\<close> leaves the promises that exist as they
  are, and the queue at least as long.
\<close>

lemma keep_step:
  assumes "step v parse i c = (e, c')" and "i \<noteq> WsOpen"
  shows "keep c c'"
proof (cases i)
  case Connect
  with assms show ?thesis by (auto simp: step_def connect_def dest: keep_createSocket)
next
  case Close
  with assms show ?thesis by (auto simp: step_def dest: keep_close)
next
  case Reconnect
  with assms show ?thesis by (auto simp: step_def dest: keep_reconnect)
next
  case (Send x41 x42 x43)
  with assms show ?thesis by (auto simp: step_def intro: keep_send)
next
  case (JoinRoom x5)
  with assms show ?thesis by (auto simp: step_def keep_joinRoom)
next
  case (LeaveRoom x6)
  with assms show ?thesis by (auto simp: step_def keep_leaveRoom)
next
  case (SetReconnectionInterval x7)
  with assms show ?thesis by (auto simp: step_def setReconnectionInterval_def intro!: keepI)
next
  case (SetAuthToken x8)
  with assms show ?thesis by (auto simp: step_def setAuthToken_def intro!: keepI)
next
  case (SetPingPongInterval x9)
  with assms show ?thesis by (auto simp: step_def keep_setPingPongInterval)
next
  case EnableClientPing
  with assms show ?thesis by (auto simp: step_def enableClientPing_def intro!: keepI)
next
  case (Subscribe x111 x112)
  with assms show ?thesis by (auto simp: step_def persistent_listener_def intro!: keep_on)
next
  case (RoomOn x121 x122 x123)
  with assms show ?thesis by (auto simp: step_def keep_room_subscribe)
next
  case (RoomOnce x131 x132 x133)
  with assms show ?thesis by (auto simp: step_def keep_room_subscribe)
next
  case WsOpen
  with assms show ?thesis by simp
next
  case (WsMessage x15)
  with assms show ?thesis by (auto simp: step_def dest: keep_on_message)
next
  case WsClose
  with assms have oc: "on_close v (set_readyState CLOSED c) = (e, c')" by (simp add: step_def)
  have "keep c (set_readyState CLOSED c)" by (rule keepI) (simp_all add: set_readyState_def)
  with keep_on_close[OF oc] show ?thesis by (blast intro: keep_trans)
next
  case WsError
  with assms show ?thesis by (auto simp: step_def dest: keep_on_error)
next
  case (Fire x18)
  with assms show ?thesis by (auto simp: step_def dest: keep_fire)
next
  case (React x19)
  with assms show ?thesis by (auto simp: step_def keep_react)
next
  case Tick
  with assms show ?thesis by (auto simp: step_def intro!: keepI)
qed

lemma keep_run:
  "WsOpen \<notin> set ins \<Longrightarrow> keep c (run v parse ins c)"
proof (induction ins arbitrary: c)
  case Nil
  show ?case by simp
next
  case (Cons i ins)
  obtain e c' where s: "step v parse i c = (e, c')" by (cases "step v parse i c")
  have "keep c c'" using Cons.prems by (intro keep_step[OF s]) auto
  moreover have "keep c' (run v parse ins c')" using Cons.prems by (intro Cons.IH) simp
  ultimately show ?case using s by (auto intro: keep_trans)
qed


subsection \<open>What the transport's \<open>open\<close> does to the queue\<close>

text \<open>Running the queued sends: each settles its own promise, in the order of the list.\<close>

lemma try_send_pending:
  assumes "p < length (promises s)" and "promises s ! p = Pending"
  shows "\<exists>w st r. try_send p f s =
           s\<lparr>websocket := w, promises := (promises s)[p := st], trace := trace s @ [Settled p r]\<rparr>
           \<and> st \<noteq> Pending"
proof (cases "websocket s")
  case None
  with assms show ?thesis
    by (intro exI[of _ None] exI[of _ "Rejected TypeError"] exI[of _ "Some TypeError"])
       (simp add: try_send_def settle_def)
next
  case (Some w)
  show ?thesis
  proof (cases "readyState w = OPEN")
    case True
    with Some assms show ?thesis
      by (intro exI[of _ "Some (w\<lparr>sent := sent w @ [f]\<rparr>)"] exI[of _ Fulfilled] exI[of _ None])
         (simp add: try_send_def settle_def WebSocket_send_def)
  next
    case False
    show ?thesis
    proof (cases "readyState w = CONNECTING")
      case True
      with Some assms show ?thesis
        by (intro exI[of _ "Some w"] exI[of _ "Rejected InvalidStateError"]
              exI[of _ "Some InvalidStateError"])
           (simp add: try_send_def settle_def WebSocket_send_def)
    next
      case closing: False
      with False Some assms show ?thesis
        by (intro exI[of _ "Some w"] exI[of _ Fulfilled] exI[of _ None])
           (simp add: try_send_def settle_def WebSocket_send_def)
    qed
  qed
qed

lemma run_queue:
  assumes "\<forall>l \<in> set q. \<exists>p f. l = QueuedSend p f \<and> p < length (promises s) \<and>
             promises s ! p = Pending"
    and "distinct (map qid q)"
  shows "\<exists>s' t. forEach (invoke v name arg b) q s = (None, s') \<and>
           trace s' = trace s @ t \<and> settled t = map qid q \<and>
           eventEmitter s' = eventEmitter s \<and> length (promises s') = length (promises s) \<and>
           (\<forall>l \<in> set q. promises s' ! qid l \<noteq> Pending) \<and>
           (\<forall>k < length (promises s). k \<notin> set (map qid q) \<longrightarrow> promises s' ! k = promises s ! k)"
  using assms
proof (induction q arbitrary: s)
  case Nil
  show ?case by simp
next
  case (Cons l q)
  from Cons.prems(1) obtain p f where l: "l = QueuedSend p f" and p: "p < length (promises s)"
    "promises s ! p = Pending"
    by auto
  from try_send_pending[OF p, of f] obtain w st r where
    ts: "try_send p f s =
           s\<lparr>websocket := w, promises := (promises s)[p := st], trace := trace s @ [Settled p r]\<rparr>"
    and st: "st \<noteq> Pending"
    by blast
  let ?s1 = "s\<lparr>websocket := w, promises := (promises s)[p := st], trace := trace s @ [Settled p r]\<rparr>"
  have inv: "invoke v name arg b l s = (None, ?s1)"
    using l ts by (simp add: invoke_def invoke0_def)
  have pre: "\<forall>l \<in> set q. \<exists>p' f. l = QueuedSend p' f \<and> p' < length (promises ?s1) \<and>
             promises ?s1 ! p' = Pending"
  proof
    fix l' assume m: "l' \<in> set q"
    with Cons.prems(1) obtain p' f' where l': "l' = QueuedSend p' f'"
      "p' < length (promises s)" "promises s ! p' = Pending"
      by auto
    from Cons.prems(2) m l l' have "p' \<noteq> p" by force
    with l' show "\<exists>p' f. l' = QueuedSend p' f \<and> p' < length (promises ?s1) \<and>
             promises ?s1 ! p' = Pending"
      by simp
  qed
  from Cons.prems(2) have d: "distinct (map qid q)" by simp
  from Cons.IH[OF pre d] obtain s' t where
    ih: "forEach (invoke v name arg b) q ?s1 = (None, s')" "trace s' = trace ?s1 @ t"
      "settled t = map qid q" "eventEmitter s' = eventEmitter ?s1"
      "length (promises s') = length (promises ?s1)"
      "\<forall>l \<in> set q. promises s' ! qid l \<noteq> Pending"
      "\<forall>k < length (promises ?s1). k \<notin> set (map qid q) \<longrightarrow> promises s' ! k = promises ?s1 ! k"
    by blast
  have pq: "p \<notin> set (map qid q)" using Cons.prems(2) l by simp
  have a: "forEach (invoke v name arg b) (l # q) s = (None, s')" using inv ih(1) by simp
  have b: "trace s' = trace s @ (Settled p r # t)" using ih(2) by simp
  have c: "settled (Settled p r # t) = map qid (l # q)" using ih(3) l by simp
  have e: "promises s' ! p \<noteq> Pending" using ih(7) pq p st by simp
  have g: "\<forall>k < length (promises s). k \<notin> set (map qid (l # q)) \<longrightarrow> promises s' ! k = promises s ! k"
    using ih(7) l by simp
  show ?case
    using a b c ih(4) ih(5) ih(6) e g l
    by (intro exI[of _ s'] exI[of _ "Settled p r # t"]) simp
qed

lemma forEach_no_error:
  "(\<And>l s. l \<in> set ls \<Longrightarrow> fst (f l s) = None) \<Longrightarrow> fst (forEach f ls s) = None"
proof (induction ls arbitrary: s)
  case Nil
  show ?case by simp
next
  case (Cons l ls)
  obtain e1 s1 where f: "f l s = (e1, s1)" by (cases "f l s")
  with Cons.prems[of l s] have "e1 = None" by simp
  with f Cons.IH[of s1] Cons.prems show ?case by simp
qed

lemma invoke_no_error:
  "persistent_listener name l \<Longrightarrow> name \<noteq> ''message'' \<Longrightarrow> fst (invoke v name arg b l s) = None"
  by (cases l) (auto simp: invoke_def invoke0_def persistent_listener_def)

lemma dispatch_no_error:
  assumes "wf c" and "name \<noteq> ''message''" and "name \<noteq> ''open''"
  shows "fst (dispatch v name arg c) = None"
proof -
  obtain e c' where d: "dispatch v name arg c = (e, c')" by (cases "dispatch v name arg c")
  obtain e1 c1 where p1: "(case l_on (eventEmitter c) name of None \<Rightarrow> (None, c)
        | Some ls \<Rightarrow> forEach (invoke v name arg True) ls c) = (e1, c1)"
    by (cases "(case l_on (eventEmitter c) name of None \<Rightarrow> (None, c)
        | Some ls \<Rightarrow> forEach (invoke v name arg True) ls c)")
  have e1: "e1 = None"
  proof (cases "l_on (eventEmitter c) name")
    case None
    with p1 show ?thesis by simp
  next
    case (Some ls)
    with assms(1) have pl: "\<forall>l \<in> set ls. persistent_listener name l" by (auto simp: wf_def)
    have "fst (forEach (invoke v name arg True) ls c) = None"
      by (rule forEach_no_error) (simp add: pl invoke_no_error assms(2))
    with p1 Some show ?thesis by simp
  qed
  have k: "keep c c1"
  proof (cases "l_on (eventEmitter c) name")
    case None
    with p1 show ?thesis by simp
  next
    case (Some ls)
    with assms(1) have pl: "\<forall>l \<in> set ls. persistent_listener name l" by (auto simp: wf_def)
    from p1 Some have fe: "forEach (invoke v name arg True) ls c = (e1, c1)" by simp
    show ?thesis
    proof (rule forEach_rel_mem[where R=keep and f="invoke v name arg True", OF keep_refl keep_trans _ fe])
      fix l s e s'
      assume "l \<in> set ls" and "invoke v name arg True l s = (e, s')"
      with pl show "keep s s'" by (auto intro: keep_invoke)
    qed
  qed
  then have "wf c1" using assms(1) by (simp add: keep_def)
  then have "l_once (eventEmitter c1) name = None" using assms(3) unfolding wf_def
    by (cases "l_once (eventEmitter c1) name") auto
  with d p1 e1 have "e = None"
    by (simp add: dispatch_def RTC_EventEmitter_dispatch_def andThen_def)
  with d show ?thesis by simp
qed


lemma wfI:
  assumes "\<And>name ls l. l_on (eventEmitter c) name = Some ls \<Longrightarrow> l \<in> set ls \<Longrightarrow>
             persistent_listener name l"
    and "\<And>name ls. l_once (eventEmitter c) name = Some ls \<Longrightarrow> name = ''open''"
    and "\<And>l. l \<in> set (queue c) \<Longrightarrow>
           \<exists>p f. l = QueuedSend p f \<and> p < length (promises c) \<and> promises c ! p = Pending"
    and "distinct (map qid (queue c))"
  shows "wf c"
  unfolding wf_def using assms by blast

lemma wf_on_lists:
  "wf c \<Longrightarrow> l_on (eventEmitter c) name = Some ls \<Longrightarrow> l \<in> set ls \<Longrightarrow> persistent_listener name l"
  unfolding wf_def by blast

lemma wf_once_name: "wf c \<Longrightarrow> l_once (eventEmitter c) name = Some ls \<Longrightarrow> name = ''open''"
  unfolding wf_def by blast

lemma filter_mem_prefix:
  assumes "distinct (xs @ ys)"
  shows "filter (\<lambda>p. p \<in> set xs) (xs @ ys) = xs"
proof -
  have "filter (\<lambda>p. p \<in> set xs) xs = xs" by (simp add: filter_id_conv)
  moreover have "filter (\<lambda>p. p \<in> set xs) ys = []" using assms by (auto simp: filter_empty_conv)
  ultimately show ?thesis by simp
qed

lemma filter_fresh:
  assumes "\<forall>q \<in> set ts. (n::nat) \<le> q" and "\<forall>p \<in> set xs. p < n"
  shows "filter (\<lambda>p. p \<in> set xs) ts = []"
proof -
  have "\<forall>x \<in> set ts. x \<notin> set xs"
  proof
    fix x assume "x \<in> set ts"
    with assms(1) have "n \<le> x" by blast
    with assms(2) show "x \<notin> set xs" by auto
  qed
  then show ?thesis by (simp add: filter_empty_conv)
qed

lemma dispatch_open:
  assumes w: "wf c"
  shows "\<exists>c' t. dispatch v ''open'' arg c = (None, c') \<and> wf c' \<and> queue c' = [] \<and>
           trace c' = trace c @ t \<and>
           filter (\<lambda>p. p \<in> set (map qid (queue c))) (settled t) = map qid (queue c) \<and>
           (\<forall>l \<in> set (queue c). promises c' ! qid l \<noteq> Pending)"
proof -
  let ?call = "invoke v ''open'' arg"
  obtain e1 c1 where p1: "(case l_on (eventEmitter c) ''open'' of None \<Rightarrow> (None, c)
        | Some ls \<Rightarrow> forEach (?call True) ls c) = (e1, c1)"
    by (cases "(case l_on (eventEmitter c) ''open'' of None \<Rightarrow> (None, c)
        | Some ls \<Rightarrow> forEach (?call True) ls c)")
  have e1: "e1 = None" and k: "keep c c1"
  proof -
    show "e1 = None"
    proof (cases "l_on (eventEmitter c) ''open''")
      case None
      with p1 show ?thesis by simp
    next
      case (Some ls)
      with w have pl: "\<forall>l \<in> set ls. persistent_listener ''open'' l" by (auto simp: wf_def)
      have "fst (forEach (?call True) ls c) = None"
        by (rule forEach_no_error) (simp add: pl invoke_no_error)
      with p1 Some show ?thesis by simp
    qed
    show "keep c c1"
    proof (cases "l_on (eventEmitter c) ''open''")
      case None
      with p1 show ?thesis by simp
    next
      case (Some ls)
      with w have pl: "\<forall>l \<in> set ls. persistent_listener ''open'' l" by (auto simp: wf_def)
      from p1 Some have fe: "forEach (?call True) ls c = (e1, c1)" by simp
      show ?thesis
      proof (rule forEach_rel_mem[where R=keep and f="?call True", OF keep_refl keep_trans _ fe])
        fix l s e s'
        assume "l \<in> set ls" and "?call True l s = (e, s')"
        with pl show "keep s s'" by (auto intro: keep_invoke)
      qed
    qed
  qed
  from k w have w1: "wf c1" and len: "length (promises c) \<le> length (promises c1)"
    and old: "\<forall>q < length (promises c). promises c1 ! q = promises c ! q"
    unfolding keep_def by blast+
  from k w obtain qs where qs: "queue c1 = queue c @ qs" unfolding keep_def by blast
  from k w obtain t1 where t1: "trace c1 = trace c @ t1"
    "\<forall>q \<in> set (settled t1). length (promises c) \<le> q"
    unfolding keep_def by blast
  have ids: "\<forall>p \<in> set (map qid (queue c)). p < length (promises c)"
    using wf_queue_ids[OF w] by auto
  have f1: "filter (\<lambda>p. p \<in> set (map qid (queue c))) (settled t1) = []"
    by (rule filter_fresh[OF t1(2) ids])
  show ?thesis
  proof (cases "l_once (eventEmitter c1) ''open''")
    case None
    then have "queue c1 = []" by (simp add: queue_def)
    with qs have qc: "queue c = []" by simp
    from None p1 e1 have d: "dispatch v ''open'' arg c = (None, c1)"
      by (simp add: dispatch_def RTC_EventEmitter_dispatch_def andThen_def)
    show ?thesis
      using d w1 \<open>queue c1 = []\<close> t1(1) qc
      by (intro exI[of _ c1] exI[of _ t1]) simp
  next
    case (Some q)
    then have q: "q = queue c1" by (simp add: queue_def)
    have pre: "\<forall>l \<in> set q. \<exists>p f. l = QueuedSend p f \<and> p < length (promises c1) \<and>
             promises c1 ! p = Pending"
      using w1 unfolding q wf_def by blast
    have dq: "distinct (map qid q)" using w1 unfolding q wf_def by blast
    from run_queue[OF pre dq, of v "''open''" arg False] obtain s2 t2 where
      rq: "forEach (?call False) q c1 = (None, s2)" "trace s2 = trace c1 @ t2"
        "settled t2 = map qid q" "eventEmitter s2 = eventEmitter c1"
        "length (promises s2) = length (promises c1)"
        "\<forall>l \<in> set q. promises s2 ! qid l \<noteq> Pending"
      by blast
    let ?c' = "s2\<lparr>eventEmitter := (eventEmitter s2)\<lparr>l_once := (l_once (eventEmitter s2))(''open'' := None)\<rparr>\<rparr>"
    have d: "dispatch v ''open'' arg c = (None, ?c')"
      using p1 e1 Some rq(1)
      by (simp add: dispatch_def RTC_EventEmitter_dispatch_def andThen_def)
    have qe: "queue ?c' = []" by (simp add: queue_def)
    have w': "wf ?c'"
    proof (rule wfI)
      fix name ls l
      assume "l_on (eventEmitter ?c') name = Some ls" and l: "l \<in> set ls"
      then have "l_on (eventEmitter c1) name = Some ls" using rq(4) by simp
      from wf_on_lists[OF w1 this l] show "persistent_listener name l" .
    next
      fix name ls
      assume a: "l_once (eventEmitter ?c') name = Some ls"
      show "name = ''open''"
      proof (rule ccontr)
        assume "name \<noteq> ''open''"
        with a have "l_once (eventEmitter c1) name = Some ls" using rq(4) by simp
        from wf_once_name[OF w1 this] \<open>name \<noteq> ''open''\<close> show False by simp
      qed
    next
      fix l assume "l \<in> set (queue ?c')"
      with qe show "\<exists>p f. l = QueuedSend p f \<and> p < length (promises ?c') \<and>
          promises ?c' ! p = Pending"
        by simp
    next
      show "distinct (map qid (queue ?c'))" using qe by simp
    qed
    have tr: "trace ?c' = trace c @ (t1 @ t2)" using rq(2) t1(1) by simp
    have "distinct (map qid (queue c) @ map qid qs)" using dq unfolding q qs by simp
    then have f2: "filter (\<lambda>p. p \<in> set (map qid (queue c))) (settled t2) = map qid (queue c)"
      unfolding rq(3) q qs by (simp only: map_append filter_mem_prefix)
    have fl: "filter (\<lambda>p. p \<in> set (map qid (queue c))) (settled (t1 @ t2)) = map qid (queue c)"
      using f1 f2 by simp
    have pn: "\<forall>l \<in> set (queue c). promises ?c' ! qid l \<noteq> Pending"
      using rq(6) unfolding q qs by simp
    show ?thesis
      using d w' qe tr fl pn by (intro exI[of _ ?c'] exI[of _ "t1 @ t2"]) simp
  qed
qed


lemma filter_narrow: "(\<And>x. P x \<Longrightarrow> Q x) \<Longrightarrow> filter P (filter Q xs) = filter P xs"
  by (induction xs) auto

lemma keep_on_open_prefix:
  "keep c (case v of Index_ts \<Rightarrow> startPingPong c
           | Websocket_ts \<Rightarrow> if isClientPingEnabled c then startPingPong c else c)"
  by (cases v) (auto simp: startPingPong_def schedule_def intro!: keepI)

text \<open>
  The transport's \<open>open\<close>, in a state the source can reach: the handler returns
  normally, every promise of the queue is settled, in the order of the queue, and
  the queue is empty afterwards.
\<close>

lemma open_settles_queue:
  assumes w: "wf c"
  shows "\<exists>c' t. step v parse WsOpen c = (None, c') \<and> wf c' \<and> queue c' = [] \<and>
           trace c' = trace c @ t \<and>
           filter (\<lambda>p. p \<in> set (map qid (queue c))) (settled t) = map qid (queue c) \<and>
           (\<forall>l \<in> set (queue c). promises c' ! qid l \<noteq> Pending)"
proof -
  let ?c0 = "set_readyState OPEN c"
  let ?c1 = "(if truthy_str (defaultAuthToken ?c0)
                then snd (send ''auth.token'' (JStr (the (defaultAuthToken ?c0))) no_receiver ?c0)
                else ?c0)"
  have k0: "keep c ?c0" by (rule keepI) (simp_all add: set_readyState_def)
  have k1: "keep ?c0 ?c1" by (simp add: keep_send)
  have k01: "keep c ?c1" by (rule keep_trans[OF k0 k1])
  then have w1: "wf ?c1" using w by (simp add: keep_def)
  obtain e2 c2 where d: "(if ''reconnecting'' = connectionState ?c1
            then dispatch v ''reconnect'' None ?c1 else (None, ?c1)) = (e2, c2)"
    by (cases "(if ''reconnecting'' = connectionState ?c1
            then dispatch v ''reconnect'' None ?c1 else (None, ?c1))")
  have e2: "e2 = None"
    using d dispatch_no_error[OF w1, of "''reconnect''" v None]
    by (cases "''reconnecting'' = connectionState ?c1") auto
  have k2: "keep ?c1 c2"
    using d by (cases "''reconnecting'' = connectionState ?c1") (auto dest!: keep_dispatch[rotated])
  let ?c3 = "(case v of Index_ts \<Rightarrow> startPingPong c2
                     | Websocket_ts \<Rightarrow> if isClientPingEnabled c2 then startPingPong c2 else c2)"
  let ?c4 = "?c3\<lparr>connectionState := ''open''\<rparr>"
  have k3: "keep c2 ?c3" by (rule keep_on_open_prefix)
  have k4: "keep ?c3 ?c4" by (rule keepI) simp_all
  have k: "keep c ?c4" using k01 k2 k3 k4 by (blast intro: keep_trans)
  have st: "step v parse WsOpen c = dispatch v ''open'' None ?c4"
    using d e2 by (simp add: step_def on_open_def Let_def andThen_def changeState_def)
  from k w have w4: "wf ?c4" unfolding keep_def by blast
  from k w obtain qs where qs: "queue ?c4 = queue c @ qs" unfolding keep_def by blast
  from k w obtain t0 where t0: "trace ?c4 = trace c @ t0"
    "\<forall>q \<in> set (settled t0). length (promises c) \<le> q"
    unfolding keep_def by blast
  from dispatch_open[OF w4, of v None] obtain c' t where
    do: "dispatch v ''open'' None ?c4 = (None, c')" "wf c'" "queue c' = []"
      "trace c' = trace ?c4 @ t"
      "filter (\<lambda>p. p \<in> set (map qid (queue ?c4))) (settled t) = map qid (queue ?c4)"
      "\<forall>l \<in> set (queue ?c4). promises c' ! qid l \<noteq> Pending"
    by blast
  have ids: "\<forall>p \<in> set (map qid (queue c)). p < length (promises c)"
    using wf_queue_ids[OF w] by auto
  have f0: "filter (\<lambda>p. p \<in> set (map qid (queue c))) (settled t0) = []"
    by (rule filter_fresh[OF t0(2) ids])
  have dist: "distinct (map qid (queue c) @ map qid qs)"
    using w4 unfolding wf_def qs by simp
  have "filter (\<lambda>p. p \<in> set (map qid (queue c))) (settled t)
      = filter (\<lambda>p. p \<in> set (map qid (queue c)))
          (filter (\<lambda>p. p \<in> set (map qid (queue ?c4))) (settled t))"
    by (rule filter_narrow[symmetric]) (simp add: qs)
  also have "\<dots> = filter (\<lambda>p. p \<in> set (map qid (queue c))) (map qid (queue c) @ map qid qs)"
    by (subst do(5)) (simp only: qs map_append)
  also have "\<dots> = map qid (queue c)" by (rule filter_mem_prefix[OF dist])
  finally have f1: "filter (\<lambda>p. p \<in> set (map qid (queue c))) (settled t) = map qid (queue c)" .
  have tr: "trace c' = trace c @ (t0 @ t)" using do(4) t0(1) by simp
  have fl: "filter (\<lambda>p. p \<in> set (map qid (queue c))) (settled (t0 @ t)) = map qid (queue c)"
    using f0 f1 by simp
  have pn: "\<forall>l \<in> set (queue c). promises c' ! qid l \<noteq> Pending"
    using do(6) unfolding qs by simp
  show ?thesis
    unfolding st using do(1) do(2) do(3) tr fl pn
    by (intro exI[of _ c'] exI[of _ "t0 @ t"]) simp
qed

lemma wf_new: "wf RTC_Websocket_new"
  by (rule wfI)
     (auto simp: RTC_Websocket_new_def onMessage_def RTC_EventEmitter_on_def new_listeners_def
        queue_def persistent_listener_def split: if_splits)

text \<open>Every state that a run from the constructor reaches is well formed.\<close>

lemma wf_run: "wf c \<Longrightarrow> wf (run v parse ins c)"
proof (induction ins arbitrary: c)
  case Nil
  then show ?case by simp
next
  case (Cons i ins)
  have "wf (snd (step v parse i c))"
  proof (cases "i = WsOpen")
    case True
    with open_settles_queue[OF Cons.prems, of v parse] show ?thesis by auto
  next
    case False
    obtain e c' where s: "step v parse i c = (e, c')" by (cases "step v parse i c")
    from keep_step[OF s False] Cons.prems s show ?thesis by (simp add: keep_def)
  qed
  from Cons.IH[OF this] show ?case by simp
qed

lemma wf_reachable: "wf (run v parse ins RTC_Websocket_new)"
  by (rule wf_run[OF wf_new])


text \<open>
  C1. In every state that a run from the constructor reaches with the connection
  state other than \<open>open\<close>, \<open>send\<close> returns a new pending promise \<open>p\<close> without
  an exception and registers one one-shot \<open>open\<close> listener, at the end of the queue.
  Whatever happens next, as long as the transport does not report \<open>open\<close>, the
  promise stays pending and nothing settles it. At the next \<open>open\<close> of the transport
  the handler returns normally, the promise is settled, the queue is emptied, and the
  promises of the queued sends are settled one by one in the order in which they
  were queued.
\<close>

theorem send_while_not_open_settles_at_next_open_in_order:
  fixes v parse pre event d rc mid
  defines "c \<equiv> run v parse pre RTC_Websocket_new"
  defines "p \<equiv> length (promises c)"
  defines "f \<equiv> \<lparr>f_event = event, f_data = d, f_receiver = rc, f_time = clock c\<rparr>"
  defines "c1 \<equiv> snd (send event d rc c)"
  defines "c2 \<equiv> run v parse mid c1"
  defines "c3 \<equiv> snd (step v parse WsOpen c2)"
  assumes n: "\<not> isOpened c" and m: "WsOpen \<notin> set mid"
  shows "step v parse (Send event d rc) c = (None, c1) \<and>
         send event d rc c =
           (p, c\<lparr>promises := promises c @ [Pending],
                 eventEmitter := RTC_EventEmitter_once ''open'' (QueuedSend p f) (eventEmitter c)\<rparr>) \<and>
         queue c1 = queue c @ [QueuedSend p f] \<and>
         promises c1 ! p = Pending \<and> promises c2 ! p = Pending \<and>
         (\<exists>t. trace c2 = trace c @ t \<and> p \<notin> set (settled t)) \<and>
         (\<exists>qs. queue c2 = queue c @ QueuedSend p f # qs) \<and>
         fst (step v parse WsOpen c2) = None \<and>
         promises c3 ! p \<noteq> Pending \<and> queue c3 = [] \<and>
         (\<exists>t. trace c3 = trace c2 @ t \<and>
              filter (\<lambda>q. q \<in> set (map qid (queue c2))) (settled t) = map qid (queue c2))"
proof -
  have w: "wf c" unfolding c_def by (rule wf_reachable)
  have sq: "send event d rc c =
           (p, c\<lparr>promises := promises c @ [Pending],
                 eventEmitter := RTC_EventEmitter_once ''open'' (QueuedSend p f) (eventEmitter c)\<rparr>)"
    unfolding p_def f_def by (rule send_queued[OF n])
  have st: "step v parse (Send event d rc) c = (None, c1)"
    by (simp add: step_def c1_def)
  have c1: "c1 = c\<lparr>promises := promises c @ [Pending],
                 eventEmitter := RTC_EventEmitter_once ''open'' (QueuedSend p f) (eventEmitter c)\<rparr>"
    unfolding c1_def sq by simp
  have q1: "queue c1 = queue c @ [QueuedSend p f]"
    unfolding c1 by (rule queue_once)
  have p1: "promises c1 = promises c @ [Pending]" unfolding c1 by simp
  have t1: "trace c1 = trace c" unfolding c1 by simp
  have pp1: "promises c1 ! p = Pending" unfolding p1 p_def by simp
  have k1: "keep c c1" unfolding c1_def by (rule keep_send)
  with w have w1: "wf c1" by (simp add: keep_def)
  have k2: "keep c1 c2" unfolding c2_def by (rule keep_run[OF m])
  from k2 w1 have w2: "wf c2" by (simp add: keep_def)
  have lp: "p < length (promises c1)" unfolding p1 p_def by simp
  from k2 w1 have "\<forall>q < length (promises c1). promises c2 ! q = promises c1 ! q"
    unfolding keep_def by blast
  with lp pp1 have pp2: "promises c2 ! p = Pending" by simp
  from k2 w1 obtain qs where qs: "queue c2 = queue c1 @ qs" unfolding keep_def by blast
  from k2 w1 obtain t where t: "trace c2 = trace c1 @ t"
      "\<forall>q \<in> set (settled t). length (promises c1) \<le> q"
    unfolding keep_def by blast
  have nt: "p \<notin> set (settled t)" using t(2) unfolding p1 p_def by auto
  have q2: "queue c2 = queue c @ QueuedSend p f # qs" unfolding qs q1 by simp
  from open_settles_queue[OF w2, of v parse] obtain c' t' where
    o: "step v parse WsOpen c2 = (None, c')" "queue c' = []" "trace c' = trace c2 @ t'"
       "filter (\<lambda>p. p \<in> set (map qid (queue c2))) (settled t') = map qid (queue c2)"
       "\<forall>l \<in> set (queue c2). promises c' ! qid l \<noteq> Pending"
    by blast
  have c3: "c3 = c'" unfolding c3_def o(1) by simp
  have pp3: "promises c3 ! p \<noteq> Pending" using o(5) unfolding c3 q2 by simp
  have e1: "\<exists>t. trace c2 = trace c @ t \<and> p \<notin> set (settled t)"
    using t(1) nt unfolding t1 by blast
  have e2: "\<exists>qs. queue c2 = queue c @ QueuedSend p f # qs" using q2 by blast
  have e3: "\<exists>t. trace c3 = trace c2 @ t \<and>
              filter (\<lambda>q. q \<in> set (map qid (queue c2))) (settled t) = map qid (queue c2)"
    unfolding c3 using o(3) o(4) by blast
  have e4: "fst (step v parse WsOpen c2) = None" unfolding o(1) by simp
  have e5: "queue c3 = []" unfolding c3 by (rule o(2))
  show ?thesis using st sq q1 pp1 pp2 e1 e2 e4 pp3 e5 e3 by blast
qed


theorem send_while_not_open_settles_at_next_open_in_order_witness:
  "\<not> isOpened (run Index_ts Some [Connect] RTC_Websocket_new) \<and>
   WsOpen \<notin> set [Send ''b'' JNull no_receiver, Tick] \<and>
   promises (run Index_ts Some
      [Connect, Send ''a'' (JStr ''1'') no_receiver, Send ''b'' JNull no_receiver, Tick]
      RTC_Websocket_new) = [Pending, Pending] \<and>
   map qid (queue (run Index_ts Some
      [Connect, Send ''a'' (JStr ''1'') no_receiver, Send ''b'' JNull no_receiver, Tick]
      RTC_Websocket_new)) = [0, 1] \<and>
   promises (run Index_ts Some
      [Connect, Send ''a'' (JStr ''1'') no_receiver, Send ''b'' JNull no_receiver, Tick, WsOpen]
      RTC_Websocket_new) = [Fulfilled, Fulfilled] \<and>
   settled (trace (run Index_ts Some
      [Connect, Send ''a'' (JStr ''1'') no_receiver, Send ''b'' JNull no_receiver, Tick, WsOpen]
      RTC_Websocket_new)) = [0, 1]"
  using send_while_not_open_settles_at_next_open_in_order
    [where v = Index_ts and parse = Some and pre = "[Connect]" and event = "''a''"
       and d = "JStr ''1''" and rc = no_receiver
       and mid = "[Send ''b'' JNull no_receiver, Tick]"]
  by (simp add: model_defs queue_def)

end
